theory Spec2Isabelle
  imports Complex_Main "HOL-Library.Word"
begin

unbundle bit_operations_syntax

section \<open>Data model\<close>

text \<open>
  A frame is a numpy array of shape (H, W, 3) and dtype uint8: a list of rows, each a list of
  pixels, each pixel three 8-bit channels. A mask is a 2-D array of floats. A float is
  modelled by the real number it stands for; where the code rounds (the weights of
  \<open>cv2.addWeighted\<close>, the values argparse reads), the rounding is written out.
\<close>

type_synonym uint8 = "8 word"
type_synonym pixel = "uint8 \<times> uint8 \<times> uint8"
type_synonym frame = "pixel list list"
type_synonym mask = "real list list"

datatype py_error = IndexError | KeyError | CvError

definition height :: "'a list list \<Rightarrow> nat" where
  "height img = length img"

definition width :: "'a list list \<Rightarrow> nat" where
  "width img = (case img of [] \<Rightarrow> 0 | r # _ \<Rightarrow> length r)"

definition shape_of :: "'a list list \<Rightarrow> nat list" where
  "shape_of img = map length img"

section \<open>Rounding\<close>

text \<open>
  \<open>cvRound\<close> rounds to the nearest integer, ties to the even one; \<open>saturate_cast<uchar>\<close>
  rounds and then clamps to 0..255.
\<close>

definition cvRound :: "real \<Rightarrow> int" where
  "cvRound x = (let f = \<lfloor>x\<rfloor> in
     if x - of_int f < 1 / 2 then f
     else if 1 / 2 < x - of_int f then f + 1
     else if even f then f else f + 1)"

definition clamp :: "'a::linorder \<Rightarrow> 'a \<Rightarrow> 'a \<Rightarrow> 'a" where
  "clamp x lo hi = max lo (min hi x)"

definition saturate_u8 :: "real \<Rightarrow> uint8" where
  "saturate_u8 x = word_of_int (clamp (cvRound x) 0 255)"

text \<open>The value of a channel as a number.\<close>

definition chan :: "uint8 \<Rightarrow> real" where
  "chan c = real (unat c)"

text \<open>
  Binary floating point with \<open>p\<close> significant bits and exponents from \<open>emin\<close> to
  \<open>emax\<close>: \<open>binade\<close> is the exponent \<open>e\<close> with \<open>2^e \<le> |x| < 2^(e+1)\<close> (\<open>emin\<close> for the
  subnormal numbers, \<open>emax + 1\<close> beyond the range), and \<open>fl\<close> rounds to the nearest
  multiple of \<open>2^(e - p + 1)\<close>, ties to the even one. \<open>f32\<close> is numpy's and OpenCV's
  single precision, \<open>f64\<close> a Python float. A value that rounds to \<open>2^128\<close> or more in
  magnitude is no finite single-precision number.
\<close>

definition binade :: "int \<Rightarrow> int \<Rightarrow> real \<Rightarrow> int" where
  "binade emin emax x =
     (case List.find (\<lambda>e. \<bar>x\<bar> < 2 powi (e + 1)) [emin..emax] of
        Some e \<Rightarrow> e
      | None \<Rightarrow> emax + 1)"

definition fl :: "nat \<Rightarrow> int \<Rightarrow> int \<Rightarrow> real \<Rightarrow> real" where
  "fl p emin emax x =
     (let q = 2 powi (binade emin emax x - (int p - 1))
      in of_int (cvRound (x / q)) * q)"

definition f32 :: "real \<Rightarrow> real" where
  "f32 = fl 24 (- 126) 127"

definition f64 :: "real \<Rightarrow> real" where
  "f64 = fl 53 (- 1022) 1023"

definition f32_finite :: "real \<Rightarrow> bool" where
  "f32_finite x \<longleftrightarrow> \<bar>f32 x\<bar> < 2 powi 128"

section \<open>The OpenCV and numpy operations the script calls\<close>

text \<open>
  The operations of OpenCV whose results depend on interpolation, rasterisation and the
  platform are parameters of the model: \<open>cv2.resize(mask, (W, H))\<close>, which raises
  \<open>cv2.error\<close> for an input it does not accept (an empty array, a zero size);
  what \<open>cv2.rectangle\<close> and \<open>cv2.putText\<close> make of an array; \<open>cv2.getTextSize\<close> (font
  \<open>FONT_HERSHEY_SIMPLEX\<close> throughout); and the 8-bit value \<open>cv2.addWeighted\<close> stores
  where the single-precision result is no finite number within the range of a 32-bit
  integer, which differs between platforms.
\<close>

record cv2 =
  resize :: "mask \<Rightarrow> nat \<times> nat \<Rightarrow> py_error + mask"
  rectangle :: "frame \<Rightarrow> int \<times> int \<Rightarrow> int \<times> int \<Rightarrow> pixel \<Rightarrow> int \<Rightarrow> frame"
  getTextSize :: "string \<Rightarrow> real \<Rightarrow> int \<Rightarrow> int \<times> int"
  putText :: "frame \<Rightarrow> string \<Rightarrow> int \<times> int \<Rightarrow> real \<Rightarrow> pixel \<Rightarrow> int \<Rightarrow> frame"
  cast_overflow :: "uint8 \<Rightarrow> real \<Rightarrow> uint8 \<Rightarrow> real \<Rightarrow> real \<Rightarrow> uint8"

text \<open>
  \<open>cv2.addWeighted(src1, alpha, src2, beta, gamma)\<close>:
  \<open>dst = saturate(src1 * alpha + src2 * beta + gamma)\<close> on every channel of every pixel;
  the two arrays must have the same size, otherwise \<open>cv2.error\<close>. For 8-bit arrays the
  three weights are narrowed to single precision and the sum is computed in single
  precision, every operation rounded; \<open>weighted_f32\<close> is that sum when it is a finite
  number a 32-bit integer can hold.
\<close>

definition weighted_f32 :: "real \<Rightarrow> real \<Rightarrow> real \<Rightarrow> real \<Rightarrow> real \<Rightarrow> real option" where
  "weighted_f32 a alpha b beta gamma =
     (let al = f32 alpha; be = f32 beta; ga = f32 gamma;
          t1 = f32 (a * al); t2 = f32 (b * be);
          s = f32 (t1 + t2); r = f32 (s + ga)
      in if f32_finite alpha \<and> f32_finite beta \<and> f32_finite gamma \<and> f32_finite (a * al)
            \<and> f32_finite (b * be) \<and> f32_finite (t1 + t2) \<and> f32_finite (s + ga)
            \<and> \<bar>r\<bar> < 2 ^ 31
         then Some r else None)"

definition weighted_channel ::
  "cv2 \<Rightarrow> uint8 \<Rightarrow> real \<Rightarrow> uint8 \<Rightarrow> real \<Rightarrow> real \<Rightarrow> uint8" where
  "weighted_channel cv a alpha b beta gamma =
     (case weighted_f32 (chan a) alpha (chan b) beta gamma of
        Some r \<Rightarrow> saturate_u8 r
      | None \<Rightarrow> cast_overflow cv a alpha b beta gamma)"

fun weighted_pixel :: "cv2 \<Rightarrow> real \<Rightarrow> real \<Rightarrow> real \<Rightarrow> pixel \<Rightarrow> pixel \<Rightarrow> pixel" where
  "weighted_pixel cv alpha beta gamma (a0, a1, a2) (b0, b1, b2) =
     (weighted_channel cv a0 alpha b0 beta gamma,
      weighted_channel cv a1 alpha b1 beta gamma,
      weighted_channel cv a2 alpha b2 beta gamma)"

definition addWeighted ::
  "cv2 \<Rightarrow> frame \<Rightarrow> real \<Rightarrow> frame \<Rightarrow> real \<Rightarrow> real \<Rightarrow> py_error + frame" where
  "addWeighted cv src1 alpha src2 beta gamma =
     (if shape_of src1 \<noteq> shape_of src2 then Inl CvError
      else Inr (map2 (map2 (weighted_pixel cv alpha beta gamma)) src1 src2))"

text \<open>\<open>np.zeros_like(frame, dtype=np.uint8)\<close>.\<close>

definition zeros_like :: "frame \<Rightarrow> frame" where
  "zeros_like img = map (map (\<lambda>_. (0, 0, 0))) img"

text \<open>
  \<open>(m > 0.5).astype(np.uint8)\<close> and the boolean-mask assignment \<open>img[mb == 1] = color\<close>,
  which raises \<open>IndexError\<close> when the mask's shape is not the image's.
\<close>

definition threshold :: "mask \<Rightarrow> uint8 list list" where
  "threshold m = map (map (\<lambda>v. if 1 / 2 < v then 1 else 0)) m"

definition mask_assign :: "frame \<Rightarrow> uint8 list list \<Rightarrow> pixel \<Rightarrow> py_error + frame" where
  "mask_assign img mb color =
     (if shape_of mb \<noteq> shape_of img then Inl IndexError
      else Inr (map2 (map2 (\<lambda>p b. if b = 1 then color else p)) img mb))"

section \<open>custom_visualization: the mask blend (lines 75-90)\<close>

definition mask_overlay ::
  "cv2 \<Rightarrow> frame \<Rightarrow> frame \<Rightarrow> mask \<Rightarrow> pixel \<Rightarrow> real \<Rightarrow> py_error + frame" where
  "mask_overlay cv frame annotated_frame mask_i color mask_alpha =
     (case resize cv mask_i (width frame, height frame) of
        Inl e \<Rightarrow> Inl e
      | Inr resized \<Rightarrow>
         (let mask_binary = threshold resized in
          case mask_assign (zeros_like frame) mask_binary color of
            Inl e \<Rightarrow> Inl e
          | Inr colored_mask \<Rightarrow> addWeighted cv annotated_frame 1 colored_mask mask_alpha 0))"

text \<open>
  The value the blend gives a channel under the mask, for a weight within the range where
  nothing overflows: the colour times the narrowed weight, rounded; added to the channel,
  rounded; saturated to 8 bits.
\<close>

definition blend_channel :: "uint8 \<Rightarrow> uint8 \<Rightarrow> real \<Rightarrow> uint8" where
  "blend_channel a c alpha = saturate_u8 (f32 (chan a + f32 (chan c * f32 alpha)))"

fun blend_pixel :: "pixel \<Rightarrow> pixel \<Rightarrow> real \<Rightarrow> pixel" where
  "blend_pixel (a0, a1, a2) (c0, c1, c2) alpha =
     (blend_channel a0 c0 alpha, blend_channel a1 c1 alpha, blend_channel a2 c2 alpha)"

fun channels :: "pixel \<Rightarrow> uint8 list" where
  "channels (c0, c1, c2) = [c0, c1, c2]"

text \<open>
  The values the specification gives the channels of a pixel under the mask of one
  detection, \<open>clamp(frame[p] + alpha * color, 0, 255)\<close>, and under the masks of two,
  \<open>clamp(frame[p] + alpha * C1 + alpha * C2, 0, 255)\<close>.
\<close>

fun spec_blend :: "pixel \<Rightarrow> pixel \<Rightarrow> real \<Rightarrow> real list" where
  "spec_blend (a0, a1, a2) (c0, c1, c2) alpha =
     [clamp (chan a0 + alpha * chan c0) 0 255,
      clamp (chan a1 + alpha * chan c1) 0 255,
      clamp (chan a2 + alpha * chan c2) 0 255]"

fun spec_blend2 :: "pixel \<Rightarrow> pixel \<Rightarrow> pixel \<Rightarrow> real \<Rightarrow> real list" where
  "spec_blend2 (a0, a1, a2) (c0, c1, c2) (d0, d1, d2) alpha =
     [clamp (chan a0 + alpha * chan c0 + alpha * chan d0) 0 255,
      clamp (chan a1 + alpha * chan c1 + alpha * chan d1) 0 255,
      clamp (chan a2 + alpha * chan c2 + alpha * chan d2) 0 255]"

section \<open>State: the random generator, the arrays, the calls made\<close>

text \<open>
  numpy's global generator is a parameter: \<open>np.random.seed(s)\<close> gives a generator state,
  \<open>np.random.randint(lo, hi, size=(n, 3), dtype=np.uint8)\<close> draws \<open>n\<close> rows from a state
  and leaves a new one.
\<close>

record 'g np_random =
  random_seed :: "nat \<Rightarrow> 'g"
  random_randint :: "'g \<Rightarrow> int \<Rightarrow> int \<Rightarrow> nat \<Rightarrow> pixel list \<times> 'g"

text \<open>
  Calls on the collaborators, in the order they are made. A drawing call names the array it
  draws into by its address.
\<close>

datatype event =
    Ev_rectangle nat "int \<times> int" "int \<times> int" pixel int
  | Ev_putText nat string "int \<times> int" real pixel int
  | Ev_open_writer
  | Ev_read bool
  | Ev_detect frame
  | Ev_annotate
  | Ev_imshow frame
  | Ev_write frame
  | Ev_release_cap
  | Ev_release_writer
  | Ev_destroyAllWindows

text \<open>
  Arrays live in a store, addressed by position: \<open>frame.copy()\<close>, \<open>cv2.addWeighted\<close> and
  \<open>cap.read()\<close> allocate a new array, \<open>cv2.rectangle\<close> and \<open>cv2.putText\<close> write into
  the one they are given. A point of a drawing call is a pair of C ints: a coordinate
  outside the 32-bit range is refused with \<open>cv2.error\<close> before anything is drawn.
\<close>

record 'g world =
  rng :: 'g
  heap :: "frame list"
  log :: "event list"
  time_calls :: nat

definition alloc :: "'g world \<Rightarrow> frame \<Rightarrow> nat \<times> 'g world" where
  "alloc w img = (length (heap w), w\<lparr>heap := heap w @ [img]\<rparr>)"

definition int32 :: "int \<Rightarrow> bool" where
  "int32 v \<longleftrightarrow> - (2 ^ 31) \<le> v \<and> v < 2 ^ 31"

definition cv_rectangle ::
  "cv2 \<Rightarrow> 'g world \<Rightarrow> nat \<Rightarrow> int \<times> int \<Rightarrow> int \<times> int \<Rightarrow> pixel \<Rightarrow> int \<Rightarrow> py_error + 'g world" where
  "cv_rectangle cv w a pt1 pt2 color thickness =
     (if int32 (fst pt1) \<and> int32 (snd pt1) \<and> int32 (fst pt2) \<and> int32 (snd pt2) then
        Inr (w\<lparr>heap := (heap w)[a := rectangle cv (heap w ! a) pt1 pt2 color thickness],
               log := log w @ [Ev_rectangle a pt1 pt2 color thickness]\<rparr>)
      else Inl CvError)"

definition cv_putText ::
  "cv2 \<Rightarrow> 'g world \<Rightarrow> nat \<Rightarrow> string \<Rightarrow> int \<times> int \<Rightarrow> real \<Rightarrow> pixel \<Rightarrow> int \<Rightarrow> py_error + 'g world" where
  "cv_putText cv w a txt org scale color thickness =
     (if int32 (fst org) \<and> int32 (snd org) then
        Inr (w\<lparr>heap := (heap w)[a := putText cv (heap w ! a) txt org scale color thickness],
               log := log w @ [Ev_putText a txt org scale color thickness]\<rparr>)
      else Inl CvError)"

section \<open>Python values: indexing, int(), number formatting\<close>

text \<open>Indexing an array by an integer: a negative index counts from the end.\<close>

definition np_index :: "'a list \<Rightarrow> int \<Rightarrow> py_error + 'a" where
  "np_index xs i =
     (let n = int (length xs) in
      if 0 \<le> i \<and> i < n then Inr (xs ! nat i)
      else if - n \<le> i \<and> i < 0 then Inr (xs ! nat (n + i))
      else Inl IndexError)"

text \<open>\<open>int(x)\<close> and \<open>astype(int)\<close> truncate towards zero.\<close>

definition py_int :: "real \<Rightarrow> int" where
  "py_int x = (if 0 \<le> x then \<lfloor>x\<rfloor> else \<lceil>x\<rceil>)"

fun string_of_nat :: "nat \<Rightarrow> string" where
  "string_of_nat n =
     (if n < 10 then [''0123456789'' ! n]
      else string_of_nat (n div 10) @ [''0123456789'' ! (n mod 10)])"

declare string_of_nat.simps [simp del]

text \<open>
  The format specification \<open>.df\<close>: the value rounded to \<open>d\<close> decimals (ties to even on the
  exact value), a minus sign for a negative value.
\<close>

definition format_f :: "nat \<Rightarrow> real \<Rightarrow> string" where
  "format_f d x =
     (let n = nat (cvRound (\<bar>x\<bar> * 10 ^ d));
          fs = string_of_nat (n mod 10 ^ d)
      in (if x < 0 then ''-'' else []) @ string_of_nat (n div 10 ^ d)
         @ (if d = 0 then [] else ''.'' @ replicate (d - length fs) CHR ''0'' @ fs))"

section \<open>custom_visualization\<close>

text \<open>
  A row of \<open>results[0].boxes.data\<close> is \<open>[x1, y1, x2, y2, conf, cls]\<close>; of a
  \<open>Results\<close> object the script reads \<open>masks\<close> (\<open>None\<close> or the array of masks), the box
  rows, \<open>boxes.cls\<close> and the dictionary \<open>names\<close>.
\<close>

record box =
  box_x1 :: real
  box_y1 :: real
  box_x2 :: real
  box_y2 :: real
  box_conf :: real

record result =
  masks :: "mask list option"
  boxes :: "box list"
  cls :: "real list"
  names :: "(int \<times> string) list"

text \<open>Lines 66-68: the colour table, from the generator reseeded with the given seed.\<close>

definition class_colors :: "'g np_random \<Rightarrow> nat \<Rightarrow> 'g world \<Rightarrow> nat \<Rightarrow> pixel list \<times> 'g world" where
  "class_colors np s w n =
     (let w1 = w\<lparr>rng := random_seed np s\<rparr>;
          (colors, g) = random_randint np (rng w1) 0 255 n
      in (colors, w1\<lparr>rng := g\<rparr>))"

text \<open>Line 99.\<close>

definition label_text :: "string \<Rightarrow> real \<Rightarrow> string" where
  "label_text class_name confidence = class_name @ '' '' @ format_f 2 confidence"

text \<open>
  Lines 92-123: the box, the label background and the label text of one detection, drawn
  into the array at address \<open>a\<close>.
\<close>

definition draw_box_label ::
  "cv2 \<Rightarrow> (int \<times> string) list \<Rightarrow> box \<Rightarrow> int \<Rightarrow> pixel \<Rightarrow> nat \<Rightarrow> 'g world \<Rightarrow>
   (py_error + unit) \<times> 'g world" where
  "draw_box_label cv nms bx class_id color a w =
     (let x1 = py_int (box_x1 bx); y1 = py_int (box_y1 bx);
          x2 = py_int (box_x2 bx); y2 = py_int (box_y2 bx)
      in case cv_rectangle cv w a (x1, y1) (x2, y2) color 2 of
           Inl e \<Rightarrow> (Inl e, w)
         | Inr w2 \<Rightarrow>
            (case map_of nms class_id of
               None \<Rightarrow> (Inl KeyError, w2)
             | Some class_name \<Rightarrow>
                (let label = label_text class_name (box_conf bx);
                     (text_w, text_h) = getTextSize cv label (1 / 2) 2
                 in case cv_rectangle cv w2 a (x1, y1 - text_h - 8) (x1 + text_w + 8, y1)
                           color (- 1) of
                      Inl e \<Rightarrow> (Inl e, w2)
                    | Inr w3 \<Rightarrow>
                       (case cv_putText cv w3 a label (x1 + 4, y1 - 4) (1 / 2)
                               (255, 255, 255) 2 of
                          Inl e \<Rightarrow> (Inl e, w3)
                        | Inr w4 \<Rightarrow> (Inr (), w4)))))"

text \<open>
  Lines 72-123, the body of the loop for one detection: \<open>fa\<close> is the address of \<open>frame\<close>,
  \<open>a\<close> the array \<open>annotated_frame\<close> is bound to.
\<close>

definition draw_detection ::
  "cv2 \<Rightarrow> pixel list \<Rightarrow> (int \<times> string) list \<Rightarrow> real \<Rightarrow> nat \<Rightarrow> mask \<times> box \<times> int \<Rightarrow>
   nat \<times> 'g world \<Rightarrow> (py_error + nat) \<times> 'g world" where
  "draw_detection cv colors nms mask_alpha fa det st =
     (case (det, st) of ((mask_i, bx, class_id), (a, w)) \<Rightarrow>
      (case np_index colors class_id of
         Inl e \<Rightarrow> (Inl e, w)
       | Inr color \<Rightarrow>
          (case mask_overlay cv (heap w ! fa) (heap w ! a) mask_i color mask_alpha of
             Inl e \<Rightarrow> (Inl e, w)
           | Inr blended \<Rightarrow>
              (let (a', w1) = alloc w blended
               in case draw_box_label cv nms bx class_id color a' w1 of
                    (Inl e, w2) \<Rightarrow> (Inl e, w2)
                  | (Inr u, w2) \<Rightarrow> (Inr a', w2)))))"

fun draw_loop ::
  "cv2 \<Rightarrow> pixel list \<Rightarrow> (int \<times> string) list \<Rightarrow> real \<Rightarrow> nat \<Rightarrow> (mask \<times> box \<times> int) list \<Rightarrow>
   nat \<times> 'g world \<Rightarrow> (py_error + nat) \<times> 'g world" where
  "draw_loop cv colors nms mask_alpha fa [] (a, w) = (Inr a, w)"
| "draw_loop cv colors nms mask_alpha fa (det # dets) (a, w) =
     (case draw_detection cv colors nms mask_alpha fa det (a, w) of
        (Inl e, w') \<Rightarrow> (Inl e, w')
      | (Inr a', w') \<Rightarrow> draw_loop cv colors nms mask_alpha fa dets (a', w'))"

text \<open>\<open>zip(masks, boxes, class_ids)\<close> stops at the shortest of the three.\<close>

definition detections :: "result \<Rightarrow> mask list \<Rightarrow> (mask \<times> box \<times> int) list" where
  "detections r ms = zip ms (zip (boxes r) (map py_int (cls r)))"

definition custom_visualization ::
  "cv2 \<Rightarrow> 'g np_random \<Rightarrow> 'g world \<Rightarrow> nat \<Rightarrow> result list \<Rightarrow> real \<Rightarrow>
   (py_error + nat) \<times> 'g world" where
  "custom_visualization cv np w fa results mask_alpha =
     (let (a0, w0) = alloc w (heap w ! fa) in
      case results of
        [] \<Rightarrow> (Inl IndexError, w0)
      | r # _ \<Rightarrow>
         (case masks r of
            None \<Rightarrow> (Inr a0, w0)
          | Some ms \<Rightarrow>
             (let (colors, w1) = class_colors np 42 w0 (length (names r))
              in draw_loop cv colors (names r) mask_alpha fa (detections r ms) (a0, w1))))"

section \<open>parse_arguments\<close>

text \<open>
  What the command line gives for each option: a value or nothing for an option with an
  argument (for \<open>type=float\<close> the number written, which Python reads as the nearest float),
  present or absent for a flag. Splitting the command line into options is argparse's
  work; the defaults and the action of each option are the script's.
\<close>

record cmdline =
  opt_model :: "string option"
  opt_device :: "string option"
  opt_conf :: "real option"
  flag_save :: bool
  opt_classes :: "int list option"
  flag_show_fps :: bool
  flag_show_labels :: bool
  flag_show_conf :: bool
  opt_mask_alpha :: "real option"
  flag_custom_visualization :: bool

record args =
  arg_model :: string
  arg_device :: string
  arg_conf :: real
  arg_save :: bool
  arg_classes :: "int list option"
  arg_show_fps :: bool
  arg_show_labels :: bool
  arg_show_conf :: bool
  arg_mask_alpha :: real
  arg_custom_visualization :: bool

text \<open>\<open>action="store_true"\<close>: the default when the flag is absent, \<open>True\<close> when present.\<close>

definition store_true :: "bool \<Rightarrow> bool \<Rightarrow> bool" where
  "store_true dflt present = (if present then True else dflt)"

definition with_default :: "'a \<Rightarrow> 'a option \<Rightarrow> 'a" where
  "with_default dflt v = (case v of None \<Rightarrow> dflt | Some x \<Rightarrow> x)"

definition parse_arguments :: "cmdline \<Rightarrow> args" where
  "parse_arguments c =
     \<lparr>arg_model = with_default ''yolov8n-seg.pt'' (opt_model c),
      arg_device = with_default ''0'' (opt_device c),
      arg_conf = f64 (with_default (25 / 100) (opt_conf c)),
      arg_save = store_true False (flag_save c),
      arg_classes = opt_classes c,
      arg_show_fps = store_true False (flag_show_fps c),
      arg_show_labels = store_true True (flag_show_labels c),
      arg_show_conf = store_true True (flag_show_conf c),
      arg_mask_alpha = f64 (with_default (3 / 10) (opt_mask_alpha c)),
      arg_custom_visualization = store_true False (flag_custom_visualization c)\<rparr>"


section \<open>main: the frame-rate counter and the capture loop\<close>

text \<open>
  The collaborators of the loop: the capture (whether it opened, the frames it will deliver
  before a read fails), the clock (the value of the i-th call of \<open>time.time()\<close>), the
  keyboard (the value of \<open>cv2.waitKey(1)\<close> in the i-th turn of the loop), the model
  and its own renderer \<open>results[0].plot\<close>.
\<close>

record 'g env =
  env_cv :: cv2
  env_np :: "'g np_random"
  cap_isOpened :: bool
  cap_frames :: "frame list"
  clock :: "nat \<Rightarrow> real"
  waitKey :: "nat \<Rightarrow> int"
  model_call :: "frame \<Rightarrow> real \<Rightarrow> int list option \<Rightarrow> result list"
  plot :: "result \<Rightarrow> bool \<Rightarrow> bool \<Rightarrow> frame"

record fps_state =
  frame_count :: int
  start_time :: real
  fps_display :: real

definition time_time :: "(nat \<Rightarrow> real) \<Rightarrow> 'g world \<Rightarrow> real \<times> 'g world" where
  "time_time clk w = (clk (time_calls w), w\<lparr>time_calls := Suc (time_calls w)\<rparr>)"

text \<open>Lines 163-166.\<close>

definition fps_init :: "(nat \<Rightarrow> real) \<Rightarrow> 'g world \<Rightarrow> fps_state \<times> 'g world" where
  "fps_init clk w =
     (let (now, w1) = time_time clk w
      in (\<lparr>frame_count = 0, start_time = now, fps_display = 0\<rparr>, w1))"

text \<open>Lines 179-185.\<close>

definition fps_update :: "(nat \<Rightarrow> real) \<Rightarrow> fps_state \<times> 'g world \<Rightarrow> fps_state \<times> 'g world" where
  "fps_update clk sw =
     (case sw of (s, w) \<Rightarrow>
      (let s1 = s\<lparr>frame_count := frame_count s + 1\<rparr>;
           (now, w1) = time_time clk w;
           elapsed_time = now - start_time s1
       in if 1 \<le> elapsed_time then
            (let s2 = s1\<lparr>fps_display := real_of_int (frame_count s1) / elapsed_time\<rparr>;
                 s3 = s2\<lparr>frame_count := 0\<rparr>;
                 (now', w2) = time_time clk w1
             in (s3\<lparr>start_time := now'\<rparr>, w2))
          else (s1, w1)))"

definition emit :: "event \<Rightarrow> 'g world \<Rightarrow> 'g world" where
  "emit e w = w\<lparr>log := log w @ [e]\<rparr>"

text \<open>Lines 195-205: the custom pipeline or the model's own renderer.\<close>

definition annotate ::
  "'g env \<Rightarrow> args \<Rightarrow> 'g world \<Rightarrow> nat \<Rightarrow> result list \<Rightarrow> (py_error + nat) \<times> 'g world" where
  "annotate ev ar w fa results =
     (if arg_custom_visualization ar then
        custom_visualization (env_cv ev) (env_np ev) w fa results (arg_mask_alpha ar)
      else
        (case results of
           [] \<Rightarrow> (Inl IndexError, w)
         | r # _ \<Rightarrow> apfst Inr (alloc w (plot ev r (arg_show_conf ar) (arg_show_labels ar)))))"

text \<open>
  Lines 179-228, turn \<open>i\<close> of the loop after a successful read: the result is whether
  the loop goes on, stops (the key \<open>q\<close>) or is left by an exception.
\<close>

datatype turn = Continue | Break | Raised py_error

definition process_frame ::
  "'g env \<Rightarrow> args \<Rightarrow> frame \<Rightarrow> nat \<Rightarrow> fps_state \<times> 'g world \<Rightarrow>
   turn \<times> fps_state \<times> 'g world" where
  "process_frame ev ar img i sw =
     (let (fa, w0) = alloc (snd sw) img;
          (s, w1) = fps_update (clock ev) (fst sw, w0);
          results = model_call ev (heap w1 ! fa) (arg_conf ar) (arg_classes ar);
          w2 = emit (Ev_detect (heap w1 ! fa)) w1
      in case annotate ev ar (emit Ev_annotate w2) fa results of
           (Inl e, w3) \<Rightarrow> (Raised e, s, w3)
         | (Inr a, w3) \<Rightarrow>
            (case (if arg_show_fps ar
                   then cv_putText (env_cv ev) w3 a (''FPS: '' @ format_f 1 (fps_display s))
                          (20, 40) 1 (0, 255, 0) 2
                   else Inr w3) of
               Inl e \<Rightarrow> (Raised e, s, w3)
             | Inr w4 \<Rightarrow>
                (let w5 = emit (Ev_imshow (heap w4 ! a)) w4;
                     w6 = (if arg_save ar then emit (Ev_write (heap w5 ! a)) w5 else w5)
                 in (if waitKey ev i AND 255 = 113 then Break else Continue, s, w6))))"

text \<open>
  Lines 171-228. The capture stays open until it is released, so the loop condition holds
  at every turn; a failed read leaves the loop.
\<close>

fun main_loop ::
  "'g env \<Rightarrow> args \<Rightarrow> frame list \<Rightarrow> nat \<Rightarrow> fps_state \<times> 'g world \<Rightarrow>
   turn \<times> fps_state \<times> 'g world" where
  "main_loop ev ar [] i (s, w) = (Break, s, emit (Ev_read False) w)"
| "main_loop ev ar (img # rest) i (s, w) =
     (case process_frame ev ar img i (s, emit (Ev_read True) w) of
        (Continue, s', w') \<Rightarrow> main_loop ev ar rest (Suc i) (s', w')
      | (t, s', w') \<Rightarrow> (t, s', w'))"

text \<open>
  Lines 144-234. The result is \<open>None\<close> when main returns or ends normally, the exception
  otherwise; console output is left out.
\<close>

definition main :: "'g env \<Rightarrow> args \<Rightarrow> 'g world \<Rightarrow> py_error option \<times> 'g world" where
  "main ev ar w =
     (if \<not> cap_isOpened ev then (None, w)
      else
        (let w1 = (if arg_save ar then emit Ev_open_writer w else w);
             (s, w2) = fps_init (clock ev) w1
         in case main_loop ev ar (cap_frames ev) 0 (s, w2) of
              (Raised e, _, w3) \<Rightarrow> (Some e, w3)
            | (_, _, w3) \<Rightarrow>
               (let w4 = emit Ev_release_cap w3;
                    w5 = (if arg_save ar then emit Ev_release_writer w4 else w4)
                in (None, emit Ev_destroyAllWindows w5))))"

section \<open>A concrete instance of the collaborators\<close>

text \<open>
  To run the definitions on concrete frames: a nearest-neighbour resize, a rectangle that
  paints the band of the given thickness around the outline (or the whole rectangle when
  the thickness is negative), a text that leaves the frame as it is (in the frames used
  below, at most three pixels wide, the text starts right of the frame, where it is clipped
  away), and a generator that keeps a counter and scrambles it.
\<close>

definition nn_resize :: "mask \<Rightarrow> nat \<times> nat \<Rightarrow> mask" where
  "nn_resize m dsize =
     (case dsize of (w, h) \<Rightarrow>
        map (\<lambda>y. map (\<lambda>x. m ! (y * height m div h) ! (x * width m div w)) [0..<w]) [0..<h])"

definition in_band :: "int \<times> int \<Rightarrow> int \<times> int \<Rightarrow> int \<Rightarrow> int \<Rightarrow> int \<Rightarrow> bool" where
  "in_band pt1 pt2 thickness x y =
     (case (pt1, pt2) of ((xa, ya), (xb, yb)) \<Rightarrow>
        (let r = (if thickness < 0 then 0 else thickness div 2);
             inside = (\<lambda>d. min xa xb - d \<le> x \<and> x \<le> max xa xb + d \<and>
                            min ya yb - d \<le> y \<and> y \<le> max ya yb + d)
         in inside r \<and> (thickness < 0 \<or> \<not> inside (- r - 1))))"

definition paint_rectangle :: "frame \<Rightarrow> int \<times> int \<Rightarrow> int \<times> int \<Rightarrow> pixel \<Rightarrow> int \<Rightarrow> frame" where
  "paint_rectangle img pt1 pt2 color thickness =
     map (\<lambda>(y, row). map (\<lambda>(x, p). if in_band pt1 pt2 thickness (int x) (int y) then color else p)
                          (enumerate 0 row))
         (enumerate 0 img)"

definition sample_cv2 :: cv2 where
  "sample_cv2 =
     \<lparr>resize = (\<lambda>m dsize. if width m = 0 \<or> fst dsize = 0 \<or> snd dsize = 0 then Inl CvError
                           else Inr (nn_resize m dsize)),
      rectangle = paint_rectangle,
      getTextSize = (\<lambda>txt scale thickness. (10 * int (length txt), 11)),
      putText = (\<lambda>img txt org scale color thickness. img),
      cast_overflow = (\<lambda>a alpha b beta gamma. 0)\<rparr>"

definition mix :: "nat \<Rightarrow> int" where
  "mix v = int ((75 * v + 74) mod 65537)"

definition counter_rows :: "nat \<Rightarrow> int \<Rightarrow> int \<Rightarrow> nat \<Rightarrow> pixel list \<times> nat" where
  "counter_rows g lo hi n =
     (map (\<lambda>i. (word_of_int (lo + mix (g + 3 * i) mod (hi - lo)),
                 word_of_int (lo + mix (g + 3 * i + 1) mod (hi - lo)),
                 word_of_int (lo + mix (g + 3 * i + 2) mod (hi - lo))))
        [0..<n],
      g + 3 * n)"

definition sample_random :: "nat np_random" where
  "sample_random = \<lparr>random_seed = (\<lambda>s. s), random_randint = counter_rows\<rparr>"

text \<open>A generator whose rows are all the same colour.\<close>

definition constant_random :: "pixel \<Rightarrow> nat np_random" where
  "constant_random c =
     \<lparr>random_seed = (\<lambda>s. s), random_randint = (\<lambda>g lo hi n. (replicate n c, g))\<rparr>"

definition world0 :: "nat world" where
  "world0 = \<lparr>rng = 0, heap = [], log = [], time_calls = 0\<rparr>"

section \<open>Reading the log\<close>

text \<open>
  The texts drawn, the reads of the capture, and what kind of call an event is.
\<close>

fun text_of :: "event \<Rightarrow> string list" where
  "text_of (Ev_putText a txt org scale color thickness) = [txt]"
| "text_of _ = []"

definition drawn_texts :: "event list \<Rightarrow> string list" where
  "drawn_texts evs = concat (map text_of evs)"

fun is_drawing :: "event \<Rightarrow> bool" where
  "is_drawing (Ev_rectangle a pt1 pt2 color thickness) = True"
| "is_drawing (Ev_putText a txt org scale color thickness) = True"
| "is_drawing _ = False"

fun is_detect :: "event \<Rightarrow> bool" where
  "is_detect (Ev_detect img) = True"
| "is_detect _ = False"

fun is_annotate :: "event \<Rightarrow> bool" where
  "is_annotate Ev_annotate = True"
| "is_annotate _ = False"

fun is_release :: "event \<Rightarrow> bool" where
  "is_release Ev_release_cap = True"
| "is_release Ev_release_writer = True"
| "is_release _ = False"

fun read_of :: "event \<Rightarrow> bool list" where
  "read_of (Ev_read ok) = [ok]"
| "read_of _ = []"

definition reads :: "event list \<Rightarrow> bool list" where
  "reads evs = concat (map read_of evs)"

text \<open>
  The calls one turn of the loop makes besides the detection and the annotation.
\<close>

fun is_quiet :: "event \<Rightarrow> bool" where
  "is_quiet (Ev_rectangle a pt1 pt2 color thickness) = True"
| "is_quiet (Ev_putText a txt org scale color thickness) = True"
| "is_quiet (Ev_imshow img) = True"
| "is_quiet (Ev_write img) = True"
| "is_quiet _ = False"

text \<open>
  A drawing call keeps the pixel in row \<open>y\<close>, column \<open>x\<close> when, whatever array it draws
  into, that pixel has the value it had: the pixel lies outside what the call paints.
\<close>

fun keeps_pixel :: "cv2 \<Rightarrow> event \<Rightarrow> nat \<Rightarrow> nat \<Rightarrow> bool" where
  "keeps_pixel cv (Ev_rectangle a pt1 pt2 color thickness) y x =
     (\<forall>img. y < length img \<and> x < length (img ! y) \<longrightarrow>
        y < length (rectangle cv img pt1 pt2 color thickness)
        \<and> x < length (rectangle cv img pt1 pt2 color thickness ! y)
        \<and> rectangle cv img pt1 pt2 color thickness ! y ! x = img ! y ! x)"
| "keeps_pixel cv (Ev_putText a txt org scale color thickness) y x =
     (\<forall>img. y < length img \<and> x < length (img ! y) \<longrightarrow>
        y < length (putText cv img txt org scale color thickness)
        \<and> x < length (putText cv img txt org scale color thickness ! y)
        \<and> putText cv img txt org scale color thickness ! y ! x = img ! y ! x)"
| "keeps_pixel cv _ y x = True"

section \<open>Concrete inputs\<close>

text \<open>
  A black frame of two by two pixels; one detection of class 0 (\<open>person\<close>,
  confidence 0.9, box from (0, 0) to (1, 1)) whose mask is zero everywhere; two detections
  whose masks both cover the pixel in row 0, column 0, one with its box over the frame and
  one with its box away from it; a command line with \<open>--save\<close>,
  \<open>--custom-visualization\<close> and \<open>--mask-alpha 0.5\<close>, and a capture of three black
  frames with no key pressed.
\<close>

definition black2 :: frame where
  "black2 = [[(0, 0, 0), (0, 0, 0)], [(0, 0, 0), (0, 0, 0)]]"

definition sample_box :: box where
  "sample_box = \<lparr>box_x1 = 0, box_y1 = 0, box_x2 = 1, box_y2 = 1, box_conf = 9 / 10\<rparr>"

definition far_box :: box where
  "far_box = \<lparr>box_x1 = 100, box_y1 = 100, box_x2 = 110, box_y2 = 110, box_conf = 9 / 10\<rparr>"

definition sample_result :: result where
  "sample_result =
     \<lparr>masks = Some [[[0, 0], [0, 0]]], boxes = [sample_box], cls = [0],
      names = [(0, ''person'')]\<rparr>"

definition overlap_result :: "box \<Rightarrow> result" where
  "overlap_result bx =
     \<lparr>masks = Some [[[1, 1], [1, 1]], [[1, 0], [0, 0]]], boxes = [bx, bx], cls = [0, 1],
      names = [(0, ''person''), (1, ''bicycle'')]\<rparr>"

definition sample_cmdline :: cmdline where
  "sample_cmdline =
     \<lparr>opt_model = None, opt_device = None, opt_conf = None, flag_save = True,
      opt_classes = None, flag_show_fps = False, flag_show_labels = False,
      flag_show_conf = False, opt_mask_alpha = Some (1 / 2),
      flag_custom_visualization = True\<rparr>"

definition sample_args :: args where
  "sample_args = parse_arguments sample_cmdline"

definition sample_env :: "nat env" where
  "sample_env =
     \<lparr>env_cv = sample_cv2, env_np = sample_random, cap_isOpened = True,
      cap_frames = [black2, black2, black2], clock = (\<lambda>i. real i),
      waitKey = (\<lambda>i. - 1), model_call = (\<lambda>img conf classes. [sample_result]),
      plot = (\<lambda>r show_conf show_labels. black2)\<rparr>"

section \<open>Facts about rounding\<close>

lemma cvRound_of_int: "cvRound (of_int n) = n"
  by (simp add: cvRound_def)

lemma cvRound_ge: "of_int m \<le> x \<Longrightarrow> m \<le> cvRound x"
proof -
  assume "of_int m \<le> x"
  then have "m \<le> \<lfloor>x\<rfloor>" by (simp add: le_floor_iff)
  then show ?thesis by (auto simp: cvRound_def Let_def)
qed

lemma cvRound_le: "x \<le> of_int m \<Longrightarrow> cvRound x \<le> m"
proof -
  assume a: "x \<le> of_int m"
  show ?thesis
  proof (cases "x = of_int \<lfloor>x\<rfloor>")
    case True
    then have "cvRound x = \<lfloor>x\<rfloor>" by (simp add: cvRound_def Let_def)
    moreover have "\<lfloor>x\<rfloor> \<le> m" using a by (simp add: floor_le_iff)
    ultimately show ?thesis by simp
  next
    case False
    then have "of_int \<lfloor>x\<rfloor> < x" by (metis of_int_floor_le order_less_le)
    then have "of_int \<lfloor>x\<rfloor> < (of_int m :: real)" using a by linarith
    then have "\<lfloor>x\<rfloor> < m" by simp
    then show ?thesis by (auto simp: cvRound_def Let_def)
  qed
qed

lemma cvRound_err: "\<bar>of_int (cvRound y) - y\<bar> \<le> 1 / 2"
proof -
  have "of_int \<lfloor>y\<rfloor> \<le> y" "y < of_int \<lfloor>y\<rfloor> + 1" by linarith+
  then show ?thesis by (auto simp: cvRound_def Let_def)
qed

subsection \<open>Exponents\<close>

lemma binade_find:
  assumes "List.find (\<lambda>e. \<bar>x\<bar> < 2 powi (e + 1)) [emin..emax] = Some e"
  shows "emin \<le> e" "e \<le> emax" "\<bar>x\<bar> < 2 powi (e + 1)"
    "emin \<le> k \<Longrightarrow> k < e \<Longrightarrow> \<not> \<bar>x\<bar> < 2 powi (k + 1)"
proof -
  let ?P = "\<lambda>e. \<bar>x\<bar> < 2 powi (e + 1)"
  obtain i where i: "i < length [emin..emax]" "?P ([emin..emax] ! i)" "e = [emin..emax] ! i"
    "\<forall>j<i. \<not> ?P ([emin..emax] ! j)"
    using assms unfolding find_Some_iff by blast
  have li: "emin + int i \<le> emax" using i(1) unfolding length_upto by linarith
  have ei: "e = emin + int i" using i(3) li by (simp only: nth_upto)
  show "emin \<le> e" "e \<le> emax" using ei li by simp_all
  show "\<bar>x\<bar> < 2 powi (e + 1)" using i(2,3) by simp
  assume k: "emin \<le> k" "k < e"
  then have j: "nat (k - emin) < i" using ei by linarith
  have "emin + int (nat (k - emin)) \<le> emax" using k ei li by linarith
  then have "[emin..emax] ! nat (k - emin) = emin + int (nat (k - emin))"
    by (rule nth_upto)
  then have "[emin..emax] ! nat (k - emin) = k" using k by simp
  then show "\<not> \<bar>x\<bar> < 2 powi (k + 1)" using i(4) j by metis
qed

lemma binade_none:
  assumes "List.find (\<lambda>e. \<bar>x\<bar> < 2 powi (e + 1)) [emin..emax] = None"
    and "emin \<le> k" "k \<le> emax"
  shows "\<not> \<bar>x\<bar> < 2 powi (k + 1)"
proof -
  have "k \<in> set [emin..emax]" using assms(2,3) unfolding set_upto atLeastAtMost_iff by simp
  then show ?thesis using assms(1) unfolding find_None_iff by blast
qed

lemma binade_range:
  assumes "emin \<le> emax"
  shows "emin \<le> binade emin emax x" "binade emin emax x \<le> emax + 1"
  using assms unfolding binade_def by (auto split: option.splits dest: binade_find(1,2))

lemma binade_upper:
  "binade emin emax x \<le> emax \<Longrightarrow> \<bar>x\<bar> < 2 powi (binade emin emax x + 1)"
  unfolding binade_def by (auto split: option.splits dest: binade_find(3))

lemma binade_le:
  assumes "emin \<le> k" "k \<le> emax" "\<bar>x\<bar> < 2 powi (k + 1)"
  shows "binade emin emax x \<le> k"
proof (cases "List.find (\<lambda>e. \<bar>x\<bar> < 2 powi (e + 1)) [emin..emax]")
  case None
  then show ?thesis using binade_none [OF None assms(1,2)] assms(3) by simp
next
  case (Some e)
  have "e \<le> k" using binade_find(4) [OF Some assms(1)] assms(3) by force
  then show ?thesis using Some by (simp add: binade_def)
qed

lemma binade_lower:
  assumes "emin < binade emin emax x"
  shows "2 powi (binade emin emax x) \<le> \<bar>x\<bar>"
proof (cases "List.find (\<lambda>e. \<bar>x\<bar> < 2 powi (e + 1)) [emin..emax]")
  case None
  then have b: "binade emin emax x = emax + 1" by (simp add: binade_def)
  then have "emin \<le> emax" using assms by simp
  from binade_none [OF None this] show ?thesis unfolding b by simp
next
  case (Some e)
  then have b: "binade emin emax x = e" by (simp add: binade_def)
  have "\<not> \<bar>x\<bar> < 2 powi (e - 1 + 1)"
    using assms unfolding b by (intro binade_find(4) [OF Some]) simp_all
  then show ?thesis unfolding b by simp
qed

lemma binade_eqI:
  assumes "emin \<le> e" "e \<le> emax" "\<bar>x\<bar> < 2 powi (e + 1)" "e = emin \<or> 2 powi e \<le> \<bar>x\<bar>"
  shows "binade emin emax x = e"
proof -
  have le: "binade emin emax x \<le> e" using binade_le [OF assms(1-3)] .
  have ge: "emin \<le> binade emin emax x" using binade_range(1) assms(1,2) by simp
  have "\<not> binade emin emax x < e"
  proof
    assume l: "binade emin emax x < e"
    then have "e \<noteq> emin" using ge by simp
    then have "2 powi e \<le> \<bar>x\<bar>" using assms(4) by simp
    moreover have "\<bar>x\<bar> < 2 powi (binade emin emax x + 1)"
      using binade_upper l assms(2) by simp
    moreover have "(2 :: real) powi (binade emin emax x + 1) \<le> 2 powi e"
      using l by (intro power_int_increasing) simp_all
    ultimately show False by linarith
  qed
  then show ?thesis using le by simp
qed

subsection \<open>Rounding to a float\<close>

lemma fl_err:
  "\<bar>fl p emin emax x - x\<bar> \<le> 2 powi (binade emin emax x - int p)"
proof -
  define q :: real where "q = 2 powi (binade emin emax x - (int p - 1))"
  have q: "0 < q" by (simp add: q_def)
  have f: "fl p emin emax x = of_int (cvRound (x / q)) * q"
    unfolding fl_def q_def Let_def ..
  have "fl p emin emax x - x = (of_int (cvRound (x / q)) - x / q) * q"
    unfolding f using q by (simp add: algebra_simps)
  then have "\<bar>fl p emin emax x - x\<bar> = \<bar>of_int (cvRound (x / q)) - x / q\<bar> * q"
    using q by (simp add: abs_mult)
  also have "\<dots> \<le> 1 / 2 * q"
    using cvRound_err [of "x / q"] q by (intro mult_right_mono) simp_all
  also have "\<dots> = 2 powi (binade emin emax x - int p)"
  proof -
    have e: "binade emin emax x - (int p - 1) = (binade emin emax x - int p) + 1" by simp
    have "q = 2 powi ((binade emin emax x - int p) + 1)" unfolding q_def e ..
    also have "\<dots> = 2 powi (binade emin emax x - int p) * 2"
      by (rule power_int_add_1) simp
    finally show ?thesis by simp
  qed
  finally show ?thesis .
qed

lemma fl_exact:
  assumes "x * 2 powi (int p - 1 - binade emin emax x) \<in> \<int>"
  shows "fl p emin emax x = x"
proof -
  define q :: real where "q = 2 powi (binade emin emax x - (int p - 1))"
  have q: "0 < q" by (simp add: q_def)
  have "x / q = x * 2 powi (int p - 1 - binade emin emax x)"
    unfolding q_def by (simp add: power_int_diff field_simps)
  then obtain n where n: "x / q = of_int n" using assms by (auto elim: Ints_cases)
  have "fl p emin emax x = of_int (cvRound (x / q)) * q"
    unfolding fl_def q_def Let_def ..
  also have "\<dots> = of_int n * q" unfolding n cvRound_of_int ..
  also have "\<dots> = x" using n q by (simp add: field_simps)
  finally show ?thesis .
qed

lemma fl_zero: "emin \<le> emax \<Longrightarrow> fl p emin emax 0 = 0"
  by (rule fl_exact) simp

lemma fl_abs_le:
  assumes "\<bar>x\<bar> \<le> 2 powi k" "emin \<le> k" "emin \<le> emax" "0 < p"
  shows "\<bar>fl p emin emax x\<bar> \<le> 2 powi k"
proof -
  define b where "b = binade emin emax x"
  have bk: "b \<le> k"
  proof (cases "k \<le> emax")
    case True
    have "(2 :: real) powi k < 2 powi (k + 1)" by (intro power_int_strict_increasing) simp_all
    then have "\<bar>x\<bar> < 2 powi (k + 1)" using assms(1) by linarith
    then show ?thesis unfolding b_def using binade_le [OF assms(2) True] by simp
  next
    case False
    then show ?thesis unfolding b_def using binade_range(2) [OF assms(3), of x] by linarith
  qed
  define n where "n = nat (k - b + (int p - 1))"
  have n: "int n = k - b + (int p - 1)" using bk assms(4) by (simp add: n_def)
  define q :: real where "q = 2 powi (b - (int p - 1))"
  have q: "0 < q" by (simp add: q_def)
  have kq: "2 powi k = (2 :: real) ^ n * q"
  proof -
    have "(2 :: real) ^ n = 2 powi (int n)" by (simp add: power_int_def)
    then have "(2 :: real) ^ n * q = 2 powi (int n + (b - (int p - 1)))"
      unfolding q_def by (simp add: power_int_add)
    then show ?thesis unfolding n by simp
  qed
  have "\<bar>x / q\<bar> \<le> 2 ^ n"
    using assms(1) q unfolding kq by (simp add: field_simps abs_mult)
  then have "x / q \<le> 2 ^ n" "- (2 ^ n) \<le> x / q" unfolding abs_le_iff by linarith+
  then have "x / q \<le> of_int (2 ^ n)" "of_int (- (2 ^ n)) \<le> x / q" by simp_all
  then have "cvRound (x / q) \<le> 2 ^ n" "- (2 ^ n) \<le> cvRound (x / q)"
    using cvRound_le [of "x / q" "2 ^ n"] cvRound_ge [of "- (2 ^ n)" "x / q"] by blast+
  then have "\<bar>cvRound (x / q)\<bar> \<le> 2 ^ n" by simp
  then have "\<bar>(of_int (cvRound (x / q)) :: real)\<bar> \<le> 2 ^ n"
    by (metis of_int_abs of_int_le_iff of_int_numeral of_int_power)
  then have "\<bar>of_int (cvRound (x / q)) * q\<bar> \<le> 2 ^ n * q"
    using q by (simp add: abs_mult)
  moreover have "fl p emin emax x = of_int (cvRound (x / q)) * q"
    unfolding fl_def q_def b_def Let_def ..
  ultimately show ?thesis unfolding kq by simp
qed


lemma power_int_nonneg_Ints: "0 \<le> n \<Longrightarrow> (2 :: real) powi n \<in> \<int>"
  by (simp add: power_int_def)

lemma of_int_mult_power_int_Ints: "0 \<le> n \<Longrightarrow> of_int N * (2 :: real) powi n \<in> \<int>"
  by (intro Ints_mult power_int_nonneg_Ints) simp_all

lemma binade_fl_le:
  assumes "emin \<le> emax" "0 < p"
  shows "binade emin emax (fl p emin emax x) \<le> binade emin emax x
       \<or> (\<bar>fl p emin emax x\<bar> = 2 powi (binade emin emax x + 1)
          \<and> binade emin emax (fl p emin emax x) \<le> binade emin emax x + 1)"
proof -
  define b where "b = binade emin emax x"
  define y where "y = fl p emin emax x"
  have r: "emin \<le> b" "b \<le> emax + 1" "binade emin emax y \<le> emax + 1"
    unfolding b_def using binade_range [OF assms(1)] by simp_all
  show ?thesis
  proof (cases "b \<le> emax")
    case False
    then show ?thesis using r unfolding b_def y_def by linarith
  next
    case True
    then have "\<bar>x\<bar> < 2 powi (b + 1)" unfolding b_def by (rule binade_upper)
    then have "\<bar>y\<bar> \<le> 2 powi (b + 1)"
      unfolding y_def using r(1) assms by (intro fl_abs_le) simp_all
    then consider "\<bar>y\<bar> < 2 powi (b + 1)" | "\<bar>y\<bar> = 2 powi (b + 1)" by linarith
    then show ?thesis
    proof cases
      case 1
      then have "binade emin emax y \<le> b" using r(1) True by (intro binade_le) 
      then show ?thesis unfolding b_def y_def by simp
    next
      case 2
      have "binade emin emax y \<le> b + 1"
      proof (cases "b + 1 \<le> emax")
        case False
        then show ?thesis using r(3) by linarith
      next
        case t: True
        have "(2 :: real) powi (b + 1) < 2 powi (b + 1 + 1)"
          by (intro power_int_strict_increasing) simp_all
        then have "\<bar>y\<bar> < 2 powi (b + 1 + 1)" using 2 by simp
        then show ?thesis using r(1) t by (intro binade_le) simp_all
      qed
      then show ?thesis using 2 unfolding b_def y_def by simp
    qed
  qed
qed

lemma fl_idem:
  assumes "emin \<le> emax" "0 < p"
  shows "fl p emin emax (fl p emin emax x) = fl p emin emax x"
proof (rule fl_exact)
  define b where "b = binade emin emax x"
  define y where "y = fl p emin emax x"
  define b' where "b' = binade emin emax y"
  define N where "N = cvRound (x / 2 powi (b - (int p - 1)))"
  have y: "y = of_int N * 2 powi (b - (int p - 1))"
    unfolding y_def N_def b_def fl_def Let_def ..
  from binade_fl_le [OF assms, of x]
  consider "b' \<le> b" | "\<bar>y\<bar> = 2 powi (b + 1)" "b' \<le> b + 1"
    unfolding b_def b'_def y_def by blast
  then have "y * 2 powi (int p - 1 - b') \<in> \<int>"
  proof cases
    case 1
    have "(2 :: real) powi ((b - (int p - 1)) + (int p - 1 - b'))
        = 2 powi (b - (int p - 1)) * 2 powi (int p - 1 - b')"
      by (rule power_int_add) simp
    then have "y * 2 powi (int p - 1 - b') = of_int N * 2 powi ((b - (int p - 1)) + (int p - 1 - b'))"
      unfolding y by simp
    also have "\<dots> = of_int N * 2 powi (b - b')" by simp
    also have "\<dots> \<in> \<int>" using 1 by (intro of_int_mult_power_int_Ints) simp
    finally show ?thesis .
  next
    case 2
    have "(2 :: real) powi ((b + 1) + (int p - 1 - b')) = 2 powi (b + 1) * 2 powi (int p - 1 - b')"
      by (rule power_int_add) simp
    then have "\<bar>y * 2 powi (int p - 1 - b')\<bar> = 2 powi ((b + 1) + (int p - 1 - b'))"
      unfolding abs_mult 2(1) by simp
    also have "\<dots> \<in> \<int>" using 2(2) assms(2) by (intro power_int_nonneg_Ints) simp
    finally have "\<bar>y * 2 powi (int p - 1 - b')\<bar> \<in> \<int>" .
    then show ?thesis by (metis Ints_minus abs_if minus_minus) 
  qed
  then show "fl p emin emax x * 2 powi (int p - 1 - binade emin emax (fl p emin emax x)) \<in> \<int>"
    unfolding y_def b'_def .
qed

subsection \<open>Single precision\<close>

lemma f32_idem: "f32 (f32 x) = f32 x"
  unfolding f32_def by (rule fl_idem) simp_all

lemma f32_zero: "f32 0 = 0"
  unfolding f32_def by (rule fl_zero) simp

lemma f32_of_int:
  assumes "\<bar>n\<bar> < 2 ^ 24"
  shows "f32 (of_int n) = of_int n"
  unfolding f32_def
proof (rule fl_exact)
  have "\<bar>(of_int n :: real)\<bar> < 2 ^ 24"
    using assms by (metis of_int_abs of_int_less_iff of_int_numeral of_int_power)
  then have "\<bar>(of_int n :: real)\<bar> < 2 powi (23 + 1)" by simp
  then have "binade (- 126) 127 (of_int n) \<le> 23" by (intro binade_le) simp_all
  then show "(of_int n :: real) * 2 powi (int 24 - 1 - binade (- 126) 127 (of_int n)) \<in> \<int>"
    by (intro of_int_mult_power_int_Ints) simp
qed

lemma chan_uint: "chan c = of_int (uint c)"
  by (simp add: chan_def)

lemma chan_bounds: "0 \<le> chan c" "chan c \<le> 255"
proof -
  show "0 \<le> chan c" unfolding chan_def by (rule of_nat_0_le_iff)
  have "uint c \<le> 255" using uint_bounded [of c] by simp
  then have "(of_int (uint c) :: real) \<le> of_int 255" by (simp only: of_int_le_iff)
  then show "chan c \<le> 255" unfolding chan_uint by simp
qed

lemma f32_chan: "f32 (chan c) = chan c"
proof -
  have "uint c < 2 ^ 24" "0 \<le> uint c" using uint_bounded [of c] by simp_all
  then have "\<bar>uint c\<bar> < 2 ^ 24" by simp
  then show ?thesis unfolding chan_uint by (rule f32_of_int)
qed

lemma f32_one: "f32 1 = 1"
  using f32_of_int [of 1] by simp

lemma f32_abs_le: "\<bar>x\<bar> \<le> 2 powi k \<Longrightarrow> - 126 \<le> k \<Longrightarrow> \<bar>f32 x\<bar> \<le> 2 powi k"
  unfolding f32_def by (rule fl_abs_le) simp_all

lemma f32_finite_le: "\<bar>x\<bar> \<le> 2 powi k \<Longrightarrow> - 126 \<le> k \<Longrightarrow> k \<le> 127 \<Longrightarrow> f32_finite x"
proof -
  assume a: "\<bar>x\<bar> \<le> 2 powi k" "- 126 \<le> k" "k \<le> 127"
  have "(2 :: real) powi k < 2 powi 128" using a(3) by (intro power_int_strict_increasing) simp_all
  then show ?thesis using f32_abs_le [OF a(1,2)] unfolding f32_finite_def by linarith
qed

lemma f32_err: "\<bar>x\<bar> < 2 powi (k + 1) \<Longrightarrow> - 126 \<le> k \<Longrightarrow> k \<le> 127 \<Longrightarrow> \<bar>f32 x - x\<bar> \<le> 2 powi (k - 24)"
proof -
  assume a: "\<bar>x\<bar> < 2 powi (k + 1)" "- 126 \<le> k" "k \<le> 127"
  have "binade (- 126) 127 x \<le> k" using a by (intro binade_le)
  then have "(2 :: real) powi (binade (- 126) 127 x - int 24) \<le> 2 powi (k - 24)"
    by (intro power_int_increasing) simp_all
  then show ?thesis using fl_err [of 24 "- 126" 127 x] unfolding f32_def by linarith
qed

lemma chan_saturate_u8: "chan (saturate_u8 x) = of_int (clamp (cvRound x) 0 255)"
proof -
  have "0 \<le> clamp (cvRound x) 0 255" "clamp (cvRound x) 0 255 < 256"
    by (simp_all add: clamp_def)
  then show ?thesis
    unfolding saturate_u8_def chan_uint by (simp add: uint_word_of_int)
qed

lemma saturate_u8_chan: "saturate_u8 (chan c) = c"
proof -
  have b: "uint c < 256" using uint_bounded [of c] by simp
  have k: "clamp (uint c) 0 255 = uint c"
    using b by (simp add: clamp_def)
  show ?thesis
    unfolding saturate_u8_def chan_uint cvRound_of_int k by simp
qed

lemma f32_finite_small: "\<bar>x\<bar> \<le> 2 ^ 31 \<Longrightarrow> f32_finite x"
proof -
  assume "\<bar>x\<bar> \<le> 2 ^ 31"
  then have "\<bar>x\<bar> \<le> 2 powi 31" by simp
  then show ?thesis by (rule f32_finite_le) simp_all
qed

lemma f32_finite_chan: "f32_finite (chan a)"
proof -
  have "\<bar>chan a\<bar> \<le> 2 ^ 31" using chan_bounds [of a] by simp
  then show ?thesis by (rule f32_finite_small)
qed

lemma f32_finite_consts: "f32_finite 0" "f32_finite 1"
  by (rule f32_finite_small; simp)+

lemma f32_finite_f32: "f32_finite x \<Longrightarrow> f32_finite (f32 x)"
  by (simp add: f32_finite_def f32_idem)

text \<open>A number with at most \<open>k\<close> binary places and few enough digits is a float.\<close>

lemma f32_dyadic:
  assumes "x * 2 ^ k \<in> \<int>" and "\<bar>x\<bar> < 2 powi (24 - int k)" and "k \<le> 149"
  shows "f32 x = x"
  unfolding f32_def
proof (rule fl_exact)
  define b where "b = binade (- 126) 127 x"
  have "\<bar>x\<bar> < 2 powi ((23 - int k) + 1)" using assms(2) by (simp add: algebra_simps)
  then have "b \<le> 23 - int k" unfolding b_def using assms(3) by (intro binade_le) simp_all
  then have n: "0 \<le> 23 - int k - b" by simp
  obtain m where m: "x * 2 ^ k = of_int m" using assms(1) by (auto elim: Ints_cases)
  have "(2 :: real) powi (int k + (23 - int k - b)) = 2 powi (int k) * 2 powi (23 - int k - b)"
    by (rule power_int_add) simp
  then have "x * 2 powi (23 - b) = x * 2 ^ k * 2 powi (23 - int k - b)"
    by (simp add: power_int_def [of _ "int k"])
  also have "\<dots> = of_int m * 2 powi (23 - int k - b)" unfolding m ..
  also have "\<dots> \<in> \<int>" using n by (rule of_int_mult_power_int_Ints)
  finally show "x * 2 powi (int 24 - 1 - binade (- 126) 127 x) \<in> \<int>"
    unfolding b_def by simp
qed

lemma f32_numeral: "numeral n < (2 :: int) ^ 24 \<Longrightarrow> f32 (numeral n) = numeral n"
  using f32_of_int [of "numeral n"] by simp

lemma f32_eval:
  "binade (- 126) 127 x = e \<Longrightarrow> f32 x = of_int (cvRound (x / 2 powi (e - 23))) * 2 powi (e - 23)"
  by (simp add: f32_def fl_def Let_def)

lemma f64_half: "f64 (1 / 2) = 1 / 2"
  unfolding f64_def
proof (rule fl_exact)
  have "binade (- 1022) 1023 (1 / 2) = - 1" by (rule binade_eqI; simp)
  then show "(1 / 2 :: real) * 2 powi (int 53 - 1 - binade (- 1022) 1023 (1 / 2)) \<in> \<int>"
    by (simp add: power_int_def)
qed

subsection \<open>The weighted sum\<close>

lemma weighted_f32_zero:
  assumes "f32_finite alpha"
  shows "weighted_f32 (chan a) 1 0 alpha 0 = Some (chan a)"
proof -
  have c: "\<bar>chan a\<bar> < 2 ^ 31" using chan_bounds [of a] by simp
  show ?thesis
    using assms c f32_finite_chan [of a] f32_finite_consts
    by (simp add: weighted_f32_def f32_one f32_zero f32_chan)
qed

lemma overlay_bounds:
  assumes "\<bar>alpha\<bar> \<le> 2 ^ 20"
  shows "\<bar>f32 alpha\<bar> \<le> 2 ^ 20" "\<bar>chan c * f32 alpha\<bar> \<le> 2 ^ 28"
    "\<bar>f32 (chan c * f32 alpha)\<bar> \<le> 2 ^ 28"
    "\<bar>chan a + f32 (chan c * f32 alpha)\<bar> \<le> 2 ^ 29"
    "\<bar>f32 (chan a + f32 (chan c * f32 alpha))\<bar> \<le> 2 ^ 29"
proof -
  have "\<bar>alpha\<bar> \<le> 2 powi 20" using assms by simp
  then have "\<bar>f32 alpha\<bar> \<le> 2 powi 20" by (rule f32_abs_le) simp
  then show 1: "\<bar>f32 alpha\<bar> \<le> 2 ^ 20" by simp
  have "\<bar>chan c * f32 alpha\<bar> \<le> 255 * 2 ^ 20"
    unfolding abs_mult using chan_bounds [of c] 1 by (intro mult_mono) simp_all
  then show 2: "\<bar>chan c * f32 alpha\<bar> \<le> 2 ^ 28" by simp
  then have "\<bar>chan c * f32 alpha\<bar> \<le> 2 powi 28" by simp
  then have "\<bar>f32 (chan c * f32 alpha)\<bar> \<le> 2 powi 28" by (rule f32_abs_le) simp
  then show 3: "\<bar>f32 (chan c * f32 alpha)\<bar> \<le> 2 ^ 28" by simp
  show 4: "\<bar>chan a + f32 (chan c * f32 alpha)\<bar> \<le> 2 ^ 29"
    using chan_bounds [of a] 3 by simp
  then have "\<bar>chan a + f32 (chan c * f32 alpha)\<bar> \<le> 2 powi 29" by simp
  then have "\<bar>f32 (chan a + f32 (chan c * f32 alpha))\<bar> \<le> 2 powi 29" by (rule f32_abs_le) simp
  then show "\<bar>f32 (chan a + f32 (chan c * f32 alpha))\<bar> \<le> 2 ^ 29" by simp
qed

lemma weighted_f32_overlay:
  assumes "\<bar>alpha\<bar> \<le> 2 ^ 20"
  shows "weighted_f32 (chan a) 1 (chan c) alpha 0 = Some (f32 (chan a + f32 (chan c * f32 alpha)))"
proof -
  note b = overlay_bounds [OF assms]
  have "\<bar>alpha\<bar> \<le> 2 ^ 31" by (rule order_trans [OF assms]) simp
  then have f1: "f32_finite alpha" by (rule f32_finite_small)
  have "\<bar>chan c * f32 alpha\<bar> \<le> 2 ^ 31" by (rule order_trans [OF b(2)]) simp
  then have f2: "f32_finite (chan c * f32 alpha)" by (rule f32_finite_small)
  have "\<bar>chan a + f32 (chan c * f32 alpha)\<bar> \<le> 2 ^ 31" by (rule order_trans [OF b(4)]) simp
  then have f3: "f32_finite (chan a + f32 (chan c * f32 alpha))" by (rule f32_finite_small)
  have f4: "f32_finite (f32 (chan a + f32 (chan c * f32 alpha)))"
    using f3 by (rule f32_finite_f32)
  have r: "\<bar>f32 (chan a + f32 (chan c * f32 alpha))\<bar> < 2 ^ 31"
    by (rule order_le_less_trans [OF b(5)]) simp
  show ?thesis
    using f1 f2 f3 f4 r f32_finite_chan [of a] f32_finite_consts
    by (simp add: weighted_f32_def f32_one f32_zero f32_chan f32_idem)
qed

lemma weighted_channel_zero:
  "f32_finite alpha \<Longrightarrow> weighted_channel cv a 1 0 alpha 0 = a"
proof -
  assume "f32_finite alpha"
  from weighted_f32_zero [OF this, of a]
  have "weighted_f32 (chan a) 1 (chan 0) alpha 0 = Some (chan a)" by (simp add: chan_def [of 0])
  then show ?thesis by (simp add: weighted_channel_def saturate_u8_chan)
qed

lemma weighted_channel_overlay:
  "\<bar>alpha\<bar> \<le> 2 ^ 20 \<Longrightarrow> weighted_channel cv a 1 c alpha 0 = blend_channel a c alpha"
  by (simp add: weighted_channel_def weighted_f32_overlay blend_channel_def)

lemma weighted_pixel_zero:
  "f32_finite alpha \<Longrightarrow> weighted_pixel cv 1 alpha 0 p (0, 0, 0) = p"
  by (cases p) (simp add: weighted_channel_zero)

lemma weighted_pixel_blend:
  "\<bar>alpha\<bar> \<le> 2 ^ 20 \<Longrightarrow> weighted_pixel cv 1 alpha 0 p c = blend_pixel p c alpha"
  by (cases p; cases c) (simp add: weighted_channel_overlay)

lemma f32_finite_bounded: "\<bar>alpha\<bar> \<le> 2 ^ 20 \<Longrightarrow> f32_finite alpha"
proof -
  assume a: "\<bar>alpha\<bar> \<le> 2 ^ 20"
  have "\<bar>alpha\<bar> \<le> 2 ^ 31" by (rule order_trans [OF a]) simp
  then show ?thesis by (rule f32_finite_small)
qed

subsection \<open>How far the blend is from the exact sum\<close>

lemma blend_close:
  assumes "\<bar>alpha\<bar> \<le> 1"
  shows "\<bar>f32 (chan a + f32 (chan c * f32 alpha)) - (chan a + alpha * chan c)\<bar> \<le> 1 / 2 ^ 14"
proof -
  have e1: "\<bar>f32 alpha - alpha\<bar> \<le> 2 powi (0 - 24)"
    using assms by (intro f32_err) simp_all
  have "\<bar>alpha\<bar> \<le> 2 powi 0" using assms by simp
  then have "\<bar>f32 alpha\<bar> \<le> 2 powi 0" by (rule f32_abs_le) simp
  then have a1: "\<bar>f32 alpha\<bar> \<le> 1" by simp
  have "\<bar>chan c * f32 alpha\<bar> \<le> 255 * 1"
    unfolding abs_mult using chan_bounds [of c] a1 by (intro mult_mono) simp_all
  then have p: "\<bar>chan c * f32 alpha\<bar> \<le> 255" by simp
  then have e2: "\<bar>f32 (chan c * f32 alpha) - chan c * f32 alpha\<bar> \<le> 2 powi (7 - 24)"
    by (intro f32_err) simp_all
  have "\<bar>chan c * f32 alpha\<bar> \<le> 2 powi 8" using p by simp
  then have "\<bar>f32 (chan c * f32 alpha)\<bar> \<le> 2 powi 8" by (rule f32_abs_le) simp
  then have "\<bar>chan a + f32 (chan c * f32 alpha)\<bar> \<le> 255 + 256"
    using chan_bounds [of a] by simp
  then have e3: "\<bar>f32 (chan a + f32 (chan c * f32 alpha)) - (chan a + f32 (chan c * f32 alpha))\<bar>
      \<le> 2 powi (8 - 24)"
    by (intro f32_err) simp_all
  have "\<bar>chan c * f32 alpha - chan c * alpha\<bar> = chan c * \<bar>f32 alpha - alpha\<bar>"
    using chan_bounds(1) [of c] by (simp add: abs_mult right_diff_distrib [symmetric])
  also have "\<dots> \<le> 255 * 2 powi (0 - 24)"
    using chan_bounds [of c] e1 by (intro mult_mono) simp_all
  finally have e4: "\<bar>chan c * f32 alpha - chan c * alpha\<bar> \<le> 255 * 2 powi (0 - 24)" .
  have t: "255 * 2 powi (0 - 24) + 2 powi (7 - 24) + 2 powi (8 - 24) \<le> (1 :: real) / 2 ^ 14"
    by (simp add: power_int_minus)
  have "\<bar>f32 (chan a + f32 (chan c * f32 alpha)) - (chan a + chan c * alpha)\<bar> \<le> 1 / 2 ^ 14"
    using e2 e3 e4 t by linarith
  then show ?thesis by (simp only: mult.commute [of alpha "chan c"])
qed

lemma clamp_lipschitz: "\<bar>clamp x 0 255 - clamp y 0 255\<bar> \<le> \<bar>x - y\<bar>" for x y :: real
  by (simp add: clamp_def max_def min_def)

lemma clamp_cvRound: "real_of_int (clamp (cvRound r) 0 255) = clamp (real_of_int (cvRound r)) 0 255"
  by (simp add: clamp_def max_def min_def)

lemma saturate_close: "\<bar>chan (saturate_u8 r) - clamp x 0 255\<bar> \<le> 1 / 2 + \<bar>r - x\<bar>"
proof -
  have "\<bar>chan (saturate_u8 r) - clamp r 0 255\<bar> \<le> \<bar>real_of_int (cvRound r) - r\<bar>"
    unfolding chan_saturate_u8 clamp_cvRound by (rule clamp_lipschitz)
  moreover have "\<bar>clamp r 0 255 - clamp x 0 255\<bar> \<le> \<bar>r - x\<bar>" by (rule clamp_lipschitz)
  ultimately show ?thesis using cvRound_err [of r] by linarith
qed

lemma blend_channel_close:
  assumes "\<bar>alpha\<bar> \<le> 1"
  shows "\<bar>chan (blend_channel a c alpha) - clamp (chan a + alpha * chan c) 0 255\<bar>
           \<le> 1 / 2 + 1 / 2 ^ 14"
  unfolding blend_channel_def
  using saturate_close [of "f32 (chan a + f32 (chan c * f32 alpha))" "chan a + alpha * chan c"]
    blend_close [OF assms, of a c] by linarith

lemma clamp_clamp_add:
  assumes "(0 \<le> x \<and> 0 \<le> y) \<or> (x \<le> 255 \<and> y \<le> 0)"
  shows "clamp (clamp x 0 255 + y) 0 255 = clamp (x + y) 0 (255 :: real)"
  using assms by (auto simp: clamp_def max_def min_def)

lemma blend_channel_twice_close:
  assumes "\<bar>alpha\<bar> \<le> 1"
  shows "\<bar>chan (blend_channel (blend_channel a c alpha) d alpha)
            - clamp (chan a + alpha * chan c + alpha * chan d) 0 255\<bar> \<le> 1 + 1 / 2 ^ 13"
proof -
  define u where "u = clamp (chan a + alpha * chan c) 0 255"
  define v where "v = blend_channel a c alpha"
  have 1: "\<bar>chan v - u\<bar> \<le> 1 / 2 + 1 / 2 ^ 14"
    unfolding u_def v_def by (rule blend_channel_close [OF assms])
  have 2: "\<bar>chan (blend_channel v d alpha) - clamp (chan v + alpha * chan d) 0 255\<bar>
      \<le> 1 / 2 + 1 / 2 ^ 14"
    by (rule blend_channel_close [OF assms])
  have 3: "\<bar>clamp (chan v + alpha * chan d) 0 255 - clamp (u + alpha * chan d) 0 255\<bar>
      \<le> \<bar>chan v - u\<bar>"
    using clamp_lipschitz [of "chan v + alpha * chan d" "u + alpha * chan d"] by simp
  have s: "(0 \<le> chan a + alpha * chan c \<and> 0 \<le> alpha * chan d)
      \<or> (chan a + alpha * chan c \<le> 255 \<and> alpha * chan d \<le> 0)"
  proof (cases "0 \<le> alpha")
    case True
    then have "0 \<le> alpha * chan c" "0 \<le> alpha * chan d" using chan_bounds(1) by simp_all
    then show ?thesis using chan_bounds(1) [of a] by simp
  next
    case False
    then have "alpha * chan c \<le> 0" "alpha * chan d \<le> 0"
      using chan_bounds(1) by (simp_all add: mult_le_0_iff)
    then show ?thesis using chan_bounds(2) [of a] by simp
  qed
  have 4: "clamp (u + alpha * chan d) 0 255 = clamp (chan a + alpha * chan c + alpha * chan d) 0 255"
    unfolding u_def by (rule clamp_clamp_add [OF s])
  have "(1 / 2 + 1 / 2 ^ 14) + (1 / 2 + 1 / 2 ^ 14) = (1 :: real) + 1 / 2 ^ 13" by simp
  then show ?thesis using 1 2 3 unfolding 4 [symmetric] v_def [symmetric] by linarith
qed


section \<open>Facts about shapes and pixels\<close>

lemma shape_of_nth:
  assumes "shape_of a = shape_of b"
  shows "length a = length b" and "y < length a \<Longrightarrow> length (a ! y) = length (b ! y)"
proof -
  show l: "length a = length b"
    using assms unfolding shape_of_def by (rule map_eq_imp_length_eq)
  assume "y < length a"
  then have "map length a ! y = length (a ! y)" "map length b ! y = length (b ! y)"
    using l by simp_all
  then show "length (a ! y) = length (b ! y)"
    using assms unfolding shape_of_def by simp
qed

lemma shape_of_zeros_like: "shape_of (zeros_like img) = shape_of img"
  by (simp add: shape_of_def zeros_like_def)

lemma shape_of_threshold: "shape_of (threshold m) = shape_of m"
  by (simp add: shape_of_def threshold_def)

lemma shape_of_map2:
  assumes "shape_of a = shape_of b"
  shows "shape_of (map2 (map2 f) a b) = shape_of a"
proof -
  have "length (map2 (map2 f) a b) = length a"
    using shape_of_nth(1) [OF assms] by simp
  moreover have "length (map2 (map2 f) a b ! y) = length (a ! y)" if "y < length a" for y
    using that shape_of_nth [OF assms] by simp
  ultimately show ?thesis
    unfolding shape_of_def by (intro nth_equalityI) simp_all
qed

lemma nth_map2_map2:
  assumes "shape_of a = shape_of b" "y < length a" "x < length (a ! y)"
  shows "map2 (map2 f) a b ! y ! x = f (a ! y ! x) (b ! y ! x)"
  using assms shape_of_nth [OF assms(1)] by simp

text \<open>The coloured mask of line 80-81, pixel by pixel.\<close>

lemma mask_assign_zeros:
  assumes "shape_of m = shape_of frame"
  shows "\<exists>cm. mask_assign (zeros_like frame) (threshold m) color = Inr cm
           \<and> shape_of cm = shape_of frame
           \<and> (\<forall>y x. y < length frame \<longrightarrow> x < length (frame ! y) \<longrightarrow>
                 cm ! y ! x = (if 1 / 2 < m ! y ! x then color else (0, 0, 0)))"
proof -
  let ?z = "zeros_like frame" and ?t = "threshold m"
  have s: "shape_of ?z = shape_of ?t"
    using assms by (simp add: shape_of_zeros_like shape_of_threshold)
  let ?cm = "map2 (map2 (\<lambda>p b. if b = 1 then color else p)) ?z ?t"
  have 1: "mask_assign ?z ?t color = Inr ?cm"
    using s by (simp add: mask_assign_def)
  have 2: "shape_of ?cm = shape_of frame"
    using shape_of_map2 [OF s] by (simp add: shape_of_zeros_like)
  have 3: "?cm ! y ! x = (if 1 / 2 < m ! y ! x then color else (0, 0, 0))"
    if "y < length frame" "x < length (frame ! y)" for y x
  proof -
    have ly: "y < length ?z" "y < length m"
      using that shape_of_nth(1) [OF assms] by (simp_all add: zeros_like_def)
    have lx: "x < length (?z ! y)" "x < length (m ! y)"
      using that shape_of_nth(2) [OF assms, of y] ly by (simp_all add: zeros_like_def)
    have "?cm ! y ! x = (if ?t ! y ! x = 1 then color else ?z ! y ! x)"
      by (rule nth_map2_map2 [OF s ly(1) lx(1)])
    moreover have "?t ! y ! x = (if 1 / 2 < m ! y ! x then 1 else 0)"
      using ly lx by (simp add: threshold_def)
    moreover have "?z ! y ! x = (0, 0, 0)"
      using that by (simp add: zeros_like_def)
    ultimately show ?thesis by simp
  qed
  show ?thesis using 1 2 3 by blast
qed

lemma mask_overlay_pixels:
  assumes "resize cv mask_i (width frame, height frame) = Inr m"
    and "shape_of m = shape_of frame"
    and "shape_of annotated = shape_of frame"
  shows "\<exists>out. mask_overlay cv frame annotated mask_i color alpha = Inr out
           \<and> shape_of out = shape_of frame
           \<and> (\<forall>y x. y < length frame \<longrightarrow> x < length (frame ! y) \<longrightarrow>
                 out ! y ! x = weighted_pixel cv 1 alpha 0 (annotated ! y ! x)
                   (if 1 / 2 < m ! y ! x then color else (0, 0, 0)))"
proof -
  obtain cm where cm: "mask_assign (zeros_like frame) (threshold m) color = Inr cm"
    "shape_of cm = shape_of frame"
    "\<And>y x. y < length frame \<Longrightarrow> x < length (frame ! y) \<Longrightarrow>
        cm ! y ! x = (if 1 / 2 < m ! y ! x then color else (0, 0, 0))"
    using mask_assign_zeros [OF assms(2), of color] by blast
  have s: "shape_of annotated = shape_of cm"
    using assms(3) cm(2) by simp
  let ?out = "map2 (map2 (weighted_pixel cv 1 alpha 0)) annotated cm"
  have 1: "mask_overlay cv frame annotated mask_i color alpha = Inr ?out"
    using assms(1) cm(1) s by (simp add: mask_overlay_def addWeighted_def)
  have 2: "shape_of ?out = shape_of frame"
    using shape_of_map2 [OF s] assms(3) by simp
  have 3: "?out ! y ! x = weighted_pixel cv 1 alpha 0 (annotated ! y ! x)
             (if 1 / 2 < m ! y ! x then color else (0, 0, 0))"
    if "y < length frame" "x < length (frame ! y)" for y x
  proof -
    have l: "y < length annotated" "x < length (annotated ! y)"
      using that shape_of_nth [OF assms(3)] by simp_all
    have "?out ! y ! x = weighted_pixel cv 1 alpha 0 (annotated ! y ! x) (cm ! y ! x)"
      by (rule nth_map2_map2 [OF s l])
    then show ?thesis using cm(3) [OF that] by simp
  qed
  show ?thesis using 1 2 3 by blast
qed

text \<open>When the blend succeeds, the shapes were right.\<close>

lemma mask_overlay_success:
  assumes "mask_overlay cv frame annotated mask_i color alpha = Inr out"
  shows "\<exists>m. resize cv mask_i (width frame, height frame) = Inr m
           \<and> shape_of m = shape_of frame \<and> shape_of annotated = shape_of frame"
proof -
  obtain m where m: "resize cv mask_i (width frame, height frame) = Inr m"
    using assms by (auto simp: mask_overlay_def split: sum.splits)
  obtain cm where cm: "mask_assign (zeros_like frame) (threshold m) color = Inr cm"
    using assms m by (auto simp: mask_overlay_def split: sum.splits)
  have s1: "shape_of m = shape_of frame"
    using cm by (auto simp: mask_assign_def shape_of_threshold shape_of_zeros_like
        split: if_splits)
  have "addWeighted cv annotated 1 cm alpha 0 = Inr out"
    using assms m cm by (simp add: mask_overlay_def)
  then have "shape_of annotated = shape_of cm"
    by (auto simp: addWeighted_def split: if_splits)
  moreover have "shape_of cm = shape_of frame"
    using mask_assign_zeros [OF s1, of color] cm by auto
  ultimately show ?thesis using m s1 by auto
qed

lemma mask_overlay_blend:
  assumes "mask_overlay cv frame annotated mask_i color alpha = Inr out"
    and "resize cv mask_i (width frame, height frame) = Inr m"
    and "\<bar>alpha\<bar> \<le> 2 ^ 20"
    and "y < length frame" "x < length (frame ! y)"
  shows "shape_of out = shape_of frame"
    and "out ! y ! x = (if 1 / 2 < m ! y ! x then blend_pixel (annotated ! y ! x) color alpha
                        else annotated ! y ! x)"
proof -
  from mask_overlay_success [OF assms(1)] assms(2)
  have s: "shape_of m = shape_of frame" "shape_of annotated = shape_of frame" by auto
  from mask_overlay_pixels [OF assms(2) s, of color alpha] assms(1)
  have o: "shape_of out = shape_of frame"
    "\<And>y x. y < length frame \<Longrightarrow> x < length (frame ! y) \<Longrightarrow>
       out ! y ! x = weighted_pixel cv 1 alpha 0 (annotated ! y ! x)
         (if 1 / 2 < m ! y ! x then color else (0, 0, 0))"
    by auto
  show "shape_of out = shape_of frame" by (rule o(1))
  show "out ! y ! x = (if 1 / 2 < m ! y ! x then blend_pixel (annotated ! y ! x) color alpha
                        else annotated ! y ! x)"
  proof (cases "1 / 2 < m ! y ! x")
    case True
    then show ?thesis
      using o(2) [OF assms(4,5)] by (simp only: if_True weighted_pixel_blend [OF assms(3)])
  next
    case False
    then show ?thesis
      using o(2) [OF assms(4,5)]
      by (simp only: if_False weighted_pixel_zero [OF f32_finite_bounded [OF assms(3)]])
  qed
qed

lemma shape_of_pixels_eq:
  assumes "shape_of a = shape_of b"
    and "\<And>y x. y < length b \<Longrightarrow> x < length (b ! y) \<Longrightarrow> a ! y ! x = b ! y ! x"
  shows "a = b"
proof (rule nth_equalityI)
  show l: "length a = length b" using shape_of_nth(1) [OF assms(1)] .
  fix y assume y: "y < length a"
  have ll: "length (a ! y) = length (b ! y)" using shape_of_nth(2) [OF assms(1) y] .
  show "a ! y = b ! y"
    using ll assms(2) y l by (intro nth_equalityI) simp_all
qed

text \<open>A mask below the threshold everywhere: the blend returns the array it was given.\<close>

lemma mask_overlay_empty:
  assumes "resize cv mask_i (width frame, height frame) = Inr m"
    and "shape_of m = shape_of frame"
    and "shape_of annotated = shape_of frame"
    and "\<forall>row \<in> set m. \<forall>v \<in> set row. v \<le> 1 / 2"
    and "f32_finite alpha"
  shows "mask_overlay cv frame annotated mask_i color alpha = Inr annotated"
proof -
  obtain out where out: "mask_overlay cv frame annotated mask_i color alpha = Inr out"
    "shape_of out = shape_of frame"
    "\<And>y x. y < length frame \<Longrightarrow> x < length (frame ! y) \<Longrightarrow>
       out ! y ! x = weighted_pixel cv 1 alpha 0 (annotated ! y ! x)
         (if 1 / 2 < m ! y ! x then color else (0, 0, 0))"
    using mask_overlay_pixels [OF assms(1-3), of color alpha] by blast
  have "out ! y ! x = annotated ! y ! x" if "y < length annotated" "x < length (annotated ! y)" for y x
  proof -
    have l: "y < length frame" "x < length (frame ! y)"
      using that shape_of_nth [OF assms(3)] by simp_all
    then have "y < length m" "x < length (m ! y)"
      using shape_of_nth [OF assms(2)] by simp_all
    then have "m ! y ! x \<le> 1 / 2" using assms(4) by (meson nth_mem)
    then show ?thesis using out(3) [OF l] assms(5) by (simp add: weighted_pixel_zero)
  qed
  moreover have "shape_of out = shape_of annotated" using out(2) assms(3) by simp
  ultimately have "out = annotated"
    by (intro shape_of_pixels_eq)
  then show ?thesis using out(1) by simp
qed


section \<open>What the drawing calls do to the state\<close>

lemma drawn_texts_append: "drawn_texts (xs @ ys) = drawn_texts xs @ drawn_texts ys"
  by (simp add: drawn_texts_def)

lemma cv_rectangle_effect:
  assumes "cv_rectangle cv w a pt1 pt2 color thickness = Inr w'"
  shows "w' = w\<lparr>heap := (heap w)[a := rectangle cv (heap w ! a) pt1 pt2 color thickness],
                log := log w @ [Ev_rectangle a pt1 pt2 color thickness]\<rparr>"
  using assms by (simp add: cv_rectangle_def split: if_splits)

lemma cv_putText_effect:
  assumes "cv_putText cv w a txt org scale color thickness = Inr w'"
  shows "w' = w\<lparr>heap := (heap w)[a := putText cv (heap w ! a) txt org scale color thickness],
                log := log w @ [Ev_putText a txt org scale color thickness]\<rparr>"
  using assms by (simp add: cv_putText_def split: if_splits)

lemma cv_rectangle_error: "cv_rectangle cv w a pt1 pt2 color thickness = Inl e \<Longrightarrow> e = CvError"
  by (simp add: cv_rectangle_def split: if_splits)

lemma cv_putText_error: "cv_putText cv w a txt org scale color thickness = Inl e \<Longrightarrow> e = CvError"
  by (simp add: cv_putText_def split: if_splits)

text \<open>
  The box and the label of one detection: the calls made are drawing calls into the one
  array, and when all three are made the text is the label of line 99.
\<close>

lemma draw_box_label_effect:
  assumes "draw_box_label cv nms bx k color a w = (r, w')"
  shows "\<exists>img evs. heap w' = (heap w)[a := img] \<and> log w' = log w @ evs \<and> rng w' = rng w
           \<and> time_calls w' = time_calls w \<and> (\<forall>e \<in> set evs. is_drawing e)
           \<and> (r = Inr () \<longrightarrow> map_of nms k \<noteq> None
                 \<and> drawn_texts evs = [label_text (the (map_of nms k)) (box_conf bx)])"
proof -
  define x1 where "x1 = py_int (box_x1 bx)"
  define y1 where "y1 = py_int (box_y1 bx)"
  define x2 where "x2 = py_int (box_x2 bx)"
  define y2 where "y2 = py_int (box_y2 bx)"
  note d = draw_box_label_def Let_def x1_def [symmetric] y1_def [symmetric]
    x2_def [symmetric] y2_def [symmetric]
  have triv: "\<exists>img evs. heap w = (heap w)[a := img] \<and> log w = log w @ evs \<and> rng w = rng w
           \<and> time_calls w = time_calls w \<and> (\<forall>e \<in> set evs. is_drawing e)"
    by (intro exI [of _ "heap w ! a"] exI [of _ "[]"]) simp
  show ?thesis
  proof (cases "cv_rectangle cv w a (x1, y1) (x2, y2) color 2")
    case (Inl e)
    then have "r = Inl e" "w' = w" using assms by (simp_all add: d)
    then show ?thesis using triv by auto
  next
    case (Inr w2)
    note e2 = cv_rectangle_effect [OF Inr]
    show ?thesis
    proof (cases "map_of nms k")
      case None
      then have "r = Inl KeyError" "w' = w2" using assms Inr by (simp_all add: d)
      then show ?thesis unfolding e2
        by (intro exI [of _ "rectangle cv (heap w ! a) (x1, y1) (x2, y2) color 2"]
              exI [of _ "[Ev_rectangle a (x1, y1) (x2, y2) color 2]"]) simp
    next
      case (Some name)
      define label where "label = label_text name (box_conf bx)"
      obtain tw th where ts: "getTextSize cv label (1 / 2) 2 = (tw, th)"
        by (cases "getTextSize cv label (1 / 2) 2") auto
      show ?thesis
      proof (cases "cv_rectangle cv w2 a (x1, y1 - th - 8) (x1 + tw + 8, y1) color (- 1)")
        case (Inl e)
        then have "r = Inl e" "w' = w2"
          using assms Inr Some ts by (simp_all add: d label_def [symmetric])
        then show ?thesis unfolding e2
          by (intro exI [of _ "rectangle cv (heap w ! a) (x1, y1) (x2, y2) color 2"]
                exI [of _ "[Ev_rectangle a (x1, y1) (x2, y2) color 2]"]) simp
      next
        case w3: (Inr w3)
        note e3 = cv_rectangle_effect [OF w3]
        show ?thesis
        proof (cases "cv_putText cv w3 a label (x1 + 4, y1 - 4) (1 / 2) (255, 255, 255) 2")
          case (Inl e)
          then have "r = Inl e" "w' = w3"
            using assms Inr Some ts w3 by (simp_all add: d label_def [symmetric])
          then show ?thesis unfolding e3 e2
            by (intro exI [of _ "rectangle cv (heap w2 ! a) (x1, y1 - th - 8) (x1 + tw + 8, y1)
                    color (- 1)"]
                  exI [of _ "[Ev_rectangle a (x1, y1) (x2, y2) color 2,
                    Ev_rectangle a (x1, y1 - th - 8) (x1 + tw + 8, y1) color (- 1)]"])
              (simp add: e2)
        next
          case w4: (Inr w4)
          note e4 = cv_putText_effect [OF w4]
          have "r = Inr ()" "w' = w4"
            using assms Inr Some ts w3 w4 by (simp_all add: d label_def [symmetric])
          then show ?thesis unfolding e4 e3 e2
            by (intro exI [of _ "putText cv (heap w3 ! a) label (x1 + 4, y1 - 4) (1 / 2)
                    (255, 255, 255) 2"]
                  exI [of _ "[Ev_rectangle a (x1, y1) (x2, y2) color 2,
                    Ev_rectangle a (x1, y1 - th - 8) (x1 + tw + 8, y1) color (- 1),
                    Ev_putText a label (x1 + 4, y1 - 4) (1 / 2) (255, 255, 255) 2]"])
              (simp add: e2 e3 Some label_def drawn_texts_def)
        qed
      qed
    qed
  qed
qed

lemma draw_detection_effect:
  assumes "draw_detection cv colors nms alpha fa (m, b, c) (a, w) = (r, w')"
  shows "\<exists>ys evs. heap w' = heap w @ ys \<and> log w' = log w @ evs \<and> rng w' = rng w
           \<and> time_calls w' = time_calls w \<and> (\<forall>e \<in> set evs. is_drawing e)
           \<and> (\<forall>a'. r = Inr a' \<longrightarrow> map_of nms c \<noteq> None
                 \<and> drawn_texts evs = [label_text (the (map_of nms c)) (box_conf b)])"
proof -
  have triv: "\<exists>ys evs. heap w = heap w @ ys \<and> log w = log w @ evs \<and> rng w = rng w
           \<and> time_calls w = time_calls w \<and> (\<forall>e \<in> set evs. is_drawing e)"
    by (intro exI [of _ "[]"]) simp
  show ?thesis
  proof (cases "np_index colors c")
    case (Inl e)
    then have "r = Inl e" "w' = w" using assms by (simp_all add: draw_detection_def)
    then show ?thesis using triv by auto
  next
    case (Inr color)
    show ?thesis
    proof (cases "mask_overlay cv (heap w ! fa) (heap w ! a) m color alpha")
      case (Inl e)
      then have "r = Inl e" "w' = w" using assms Inr by (simp_all add: draw_detection_def)
      then show ?thesis using triv by auto
    next
      case bl: (Inr blended)
      define w1 where "w1 = w\<lparr>heap := heap w @ [blended]\<rparr>"
      obtain r2 w2 where d: "draw_box_label cv nms b c color (length (heap w)) w1 = (r2, w2)"
        by (cases "draw_box_label cv nms b c color (length (heap w)) w1") auto
      from draw_box_label_effect [OF d]
      obtain img evs where e: "heap w2 = (heap w1)[length (heap w) := img]"
        "log w2 = log w1 @ evs" "rng w2 = rng w1" "time_calls w2 = time_calls w1"
        "\<forall>e \<in> set evs. is_drawing e"
        "r2 = Inr () \<longrightarrow> map_of nms c \<noteq> None
           \<and> drawn_texts evs = [label_text (the (map_of nms c)) (box_conf b)]"
        by blast
      have w': "w' = w2" and r: "r = (case r2 of Inl e \<Rightarrow> Inl e | Inr u \<Rightarrow> Inr (length (heap w)))"
        using assms Inr bl d
        by (auto simp: draw_detection_def alloc_def w1_def [symmetric] split: sum.splits)
      have h: "heap w2 = heap w @ [img]" using e(1) by (simp add: w1_def)
      have "\<forall>a'. r = Inr a' \<longrightarrow> map_of nms c \<noteq> None
                 \<and> drawn_texts evs = [label_text (the (map_of nms c)) (box_conf b)]"
        using e(6) r by (cases r2) auto
      then show ?thesis
        unfolding w' using h e(2-5)
        by (intro exI [of _ "[img]"] exI [of _ evs]) (simp add: w1_def)
    qed
  qed
qed

lemma draw_loop_effect:
  assumes "draw_loop cv colors nms alpha fa dets (a, w) = (r, w')"
  shows "\<exists>ys evs. heap w' = heap w @ ys \<and> log w' = log w @ evs \<and> rng w' = rng w
           \<and> time_calls w' = time_calls w \<and> (\<forall>e \<in> set evs. is_drawing e)
           \<and> (\<forall>a'. r = Inr a' \<longrightarrow>
                 list_all (\<lambda>(m, b, c). map_of nms c \<noteq> None) dets
                 \<and> drawn_texts evs =
                   map (\<lambda>(m, b, c). label_text (the (map_of nms c)) (box_conf b)) dets)"
  using assms
proof (induction dets arbitrary: a w)
  case Nil
  then show ?case by (simp add: drawn_texts_def)
next
  case (Cons det dets)
  obtain m b c where det: "det = (m, b, c)" by (cases det) auto
  obtain r1 w1 where s: "draw_detection cv colors nms alpha fa (m, b, c) (a, w) = (r1, w1)"
    by (cases "draw_detection cv colors nms alpha fa (m, b, c) (a, w)") auto
  from draw_detection_effect [OF s]
  obtain ys1 evs1 where e1: "heap w1 = heap w @ ys1" "log w1 = log w @ evs1" "rng w1 = rng w"
    "time_calls w1 = time_calls w" "\<forall>e \<in> set evs1. is_drawing e"
    "\<forall>a'. r1 = Inr a' \<longrightarrow> map_of nms c \<noteq> None
        \<and> drawn_texts evs1 = [label_text (the (map_of nms c)) (box_conf b)]"
    by blast
  show ?case
  proof (cases r1)
    case (Inl e)
    then have "r = Inl e" "w' = w1" using Cons.prems s det by simp_all
    then show ?thesis using e1 by auto
  next
    case (Inr a1)
    then have l: "draw_loop cv colors nms alpha fa dets (a1, w1) = (r, w')"
      using Cons.prems s det by simp
    from Cons.IH [OF l]
    obtain ys2 evs2 where e2: "heap w' = heap w1 @ ys2" "log w' = log w1 @ evs2"
      "rng w' = rng w1" "time_calls w' = time_calls w1" "\<forall>e \<in> set evs2. is_drawing e"
      "\<forall>a'. r = Inr a' \<longrightarrow> list_all (\<lambda>(m, b, c). map_of nms c \<noteq> None) dets
          \<and> drawn_texts evs2 =
              map (\<lambda>(m, b, c). label_text (the (map_of nms c)) (box_conf b)) dets"
      by blast
    have "heap w' = heap w @ (ys1 @ ys2)" "log w' = log w @ (evs1 @ evs2)"
      using e1 e2 by simp_all
    moreover have "\<forall>e \<in> set (evs1 @ evs2). is_drawing e" using e1 e2 by auto
    moreover have "\<forall>a'. r = Inr a' \<longrightarrow>
          list_all (\<lambda>(m, b, c). map_of nms c \<noteq> None) (det # dets)
          \<and> drawn_texts (evs1 @ evs2) =
              map (\<lambda>(m, b, c). label_text (the (map_of nms c)) (box_conf b)) (det # dets)"
      using e1(6) e2(6) Inr det by (simp add: drawn_texts_append)
    moreover have "rng w' = rng w" "time_calls w' = time_calls w" using e1 e2 by simp_all
    ultimately show ?thesis by blast
  qed
qed

lemma class_colors_log: "log (snd (class_colors np s w n)) = log w"
  by (simp add: class_colors_def Let_def split: prod.splits)

lemma class_colors_heap: "heap (snd (class_colors np s w n)) = heap w"
  by (simp add: class_colors_def Let_def split: prod.splits)

lemma class_colors_fst: "fst (class_colors np s w n) = fst (class_colors np s w' n)"
  by (simp add: class_colors_def split: prod.splits)

text \<open>custom_visualization with masks present is the loop, run on a copy of the frame.\<close>

lemma custom_visualization_loop:
  assumes "masks r = Some ms"
  shows "custom_visualization cv np w fa (r # rest) alpha =
           draw_loop cv (fst (class_colors np 42 w (length (names r)))) (names r) alpha fa
             (detections r ms)
             (length (heap w),
              snd (class_colors np 42 (w\<lparr>heap := heap w @ [heap w ! fa]\<rparr>) (length (names r))))"
proof -
  obtain colors w1 where c:
    "class_colors np 42 (w\<lparr>heap := heap w @ [heap w ! fa]\<rparr>) (length (names r)) = (colors, w1)"
    by (cases "class_colors np 42 (w\<lparr>heap := heap w @ [heap w ! fa]\<rparr>) (length (names r))") auto
  have "fst (class_colors np 42 w (length (names r))) = colors"
    using class_colors_fst [of np 42 w "length (names r)" "w\<lparr>heap := heap w @ [heap w ! fa]\<rparr>"] c
    by simp
  then show ?thesis
    using assms c by (simp add: custom_visualization_def alloc_def)
qed



section \<open>Evaluation of the concrete instance\<close>

lemma sample_cv2_sel:
  "resize sample_cv2 m dsize =
     (if width m = 0 \<or> fst dsize = 0 \<or> snd dsize = 0 then Inl CvError
      else Inr (nn_resize m dsize))"
  "rectangle sample_cv2 = paint_rectangle"
  "getTextSize sample_cv2 txt scale thickness = (10 * int (length txt), 11)"
  "putText sample_cv2 img txt org scale color thickness = img"
  by (simp_all add: sample_cv2_def)

lemmas sample_simps =
  sample_cv2_sel nn_resize_def width_def height_def threshold_def mask_assign_def
  zeros_like_def shape_of_def addWeighted_def mask_overlay_def upt_rec

lemmas world_simps =
  draw_detection_def draw_box_label_def np_index_def alloc_def cv_rectangle_def
  cv_putText_def int32_def py_int_def label_text_def format_f_def string_of_nat.simps
  paint_rectangle_def in_band_def black2_def sample_box_def world0_def Let_def

lemma sample_env_sel:
  "env_cv sample_env = sample_cv2" "env_np sample_env = sample_random"
  "cap_isOpened sample_env" "cap_frames sample_env = [black2, black2, black2]"
  "waitKey sample_env i = - 1" "model_call sample_env img c k = [sample_result]"
  by (simp_all add: sample_env_def)

lemma sample_args_sel:
  "arg_custom_visualization sample_args" "arg_mask_alpha sample_args = 1 / 2"
  "arg_save sample_args" "\<not> arg_show_fps sample_args"
  "arg_show_labels sample_args" "arg_show_conf sample_args"
  by (simp_all add: sample_args_def sample_cmdline_def parse_arguments_def store_true_def
        with_default_def f64_half)


lemma sample_colors1:
  "class_colors sample_random 42 w (Suc 0) = ([(164, 239, 59)], w\<lparr>rng := 45\<rparr>)"
  by (simp add: class_colors_def sample_random_def counter_rows_def mix_def upt_rec)

lemma constant_colors:
  "class_colors (constant_random c) 42 w n = (replicate n c, w\<lparr>rng := 42\<rparr>)"
  by (simp add: class_colors_def constant_random_def)

text \<open>Weights that are floats: the blend of a channel is the rounded, clamped sum.\<close>

lemma blend_channel_dyadic:
  assumes "alpha * 2 ^ k \<in> \<int>" and "\<bar>alpha\<bar> \<le> 1" and "k \<le> 14"
  shows "blend_channel a c alpha = saturate_u8 (chan a + chan c * alpha)"
proof -
  have p: "(2 :: real) powi 10 \<le> 2 powi (24 - int k)"
    using assms(3) by (intro power_int_increasing) simp_all
  have "\<bar>alpha\<bar> < 2 powi 10" using assms(2) by simp
  then have "\<bar>alpha\<bar> < 2 powi (24 - int k)" using p by linarith
  then have 1: "f32 alpha = alpha" using assms(1,3) by (intro f32_dyadic [of _ k]) simp_all
  have "\<bar>chan c * alpha\<bar> \<le> 255 * 1"
    unfolding abs_mult using chan_bounds [of c] assms(2) by (intro mult_mono) simp_all
  then have b2: "\<bar>chan c * alpha\<bar> \<le> 255" by simp
  then have "\<bar>chan c * alpha\<bar> < 2 powi 10" by simp
  then have l2: "\<bar>chan c * alpha\<bar> < 2 powi (24 - int k)" using p by linarith
  have "chan c * (alpha * 2 ^ k) \<in> \<int>"
    unfolding chan_uint by (rule Ints_mult [OF Ints_of_int assms(1)])
  then have i2: "chan c * alpha * 2 ^ k \<in> \<int>" by (simp add: mult.assoc)
  have 2: "f32 (chan c * alpha) = chan c * alpha"
    using i2 l2 assms(3) by (intro f32_dyadic [of _ k]) simp_all
  have "\<bar>chan a + chan c * alpha\<bar> \<le> 255 + 255" using chan_bounds [of a] b2 by linarith
  then have "\<bar>chan a + chan c * alpha\<bar> < 2 powi 10" by simp
  then have l3: "\<bar>chan a + chan c * alpha\<bar> < 2 powi (24 - int k)" using p by linarith
  have "chan a * 2 ^ k \<in> \<int>"
    unfolding chan_uint by (intro Ints_mult Ints_of_int Ints_power Ints_numeral)
  then have "chan a * 2 ^ k + chan c * alpha * 2 ^ k \<in> \<int>" using i2 by (rule Ints_add)
  then have i3: "(chan a + chan c * alpha) * 2 ^ k \<in> \<int>" by (simp add: distrib_right)
  have 3: "f32 (chan a + chan c * alpha) = chan a + chan c * alpha"
    using i3 l3 assms(3) by (intro f32_dyadic [of _ k]) simp_all
  show ?thesis unfolding blend_channel_def 1 2 3 ..
qed

lemma blend_channel_one: "blend_channel a c 1 = saturate_u8 (chan a + chan c)"
  using blend_channel_dyadic [of 1 0 a c] by simp

lemma blend_channel_half: "blend_channel a c (1 / 2) = saturate_u8 (chan a + chan c / 2)"
  using blend_channel_dyadic [of "1 / 2" 1 a c] by simp

lemma blend_channel_quarter: "blend_channel a c (1 / 4) = saturate_u8 (chan a + chan c / 4)"
  using blend_channel_dyadic [of "1 / 4" 2 a c] by simp

lemma blend_channel_3_8: "blend_channel a c (3 / 8) = saturate_u8 (chan a + chan c * 3 / 8)"
  using blend_channel_dyadic [of "3 / 8" 3 a c] by simp

text \<open>The default weight 0.3 as a float, and a weight just below 1/2.\<close>

lemma f32_3_10: "f32 (3 / 10) = 10066330 / 33554432"
proof -
  have "binade (- 126) 127 (3 / 10) = - 2" by (rule binade_eqI; simp)
  from f32_eval [OF this] show ?thesis by (simp add: cvRound_def)
qed

lemma f32_95: "f32 (95 * (10066330 / 33554432)) = 14942209 / 524288"
proof -
  have "binade (- 126) 127 (95 * (10066330 / 33554432)) = 4" by (rule binade_eqI; simp)
  from f32_eval [OF this] show ?thesis by (simp add: cvRound_def)
qed

lemma blend_channel_default: "blend_channel 0 95 (3 / 10) = 29"
proof -
  have c: "chan 95 = 95" "chan 0 = 0" by (simp_all add: chan_def)
  have i: "f32 (14942209 / 524288) = 14942209 / 524288"
    using f32_idem [of "95 * (10066330 / 33554432)"] unfolding f32_95 .
  have "blend_channel 0 95 (3 / 10) = saturate_u8 (14942209 / 524288)"
    unfolding blend_channel_def c f32_3_10 f32_95 add_0 i ..
  also have "\<dots> = 29" by (simp add: saturate_u8_def cvRound_def clamp_def)
  finally show ?thesis .
qed

lemma f32_below_half: "f32 (67108863 / 134217728) = 1 / 2"
proof -
  have "binade (- 126) 127 (67108863 / 134217728) = - 2" by (rule binade_eqI; simp)
  from f32_eval [OF this] show ?thesis by (simp add: cvRound_def)
qed

lemma blend_channel_below_half: "blend_channel 0 3 (67108863 / 134217728) = 2"
proof -
  have c: "chan 3 = 3" "chan 0 = 0" by (simp_all add: chan_def)
  have "(3 / 2 :: real) * 2 ^ 1 \<in> \<int>" by simp
  then have i: "f32 (3 / 2) = 3 / 2" by (rule f32_dyadic) simp_all
  have m: "(3 :: real) * (1 / 2) = 3 / 2" by simp
  have "blend_channel 0 3 (67108863 / 134217728) = saturate_u8 (3 / 2)"
    unfolding blend_channel_def c f32_below_half m i add_0 ..
  also have "\<dots> = 2" by (simp add: saturate_u8_def cvRound_def clamp_def)
  finally show ?thesis .
qed

lemma sample_overlay:
  "f32_finite alpha \<Longrightarrow>
   mask_overlay sample_cv2 black2 black2 [[0, 0], [0, 0]] color alpha = Inr black2"
  by (simp add: sample_simps black2_def weighted_channel_zero)

lemma sample_label: "label_text ''person'' (9 / 10) = ''person 0.90''"
  by (simp add: label_text_def format_f_def cvRound_def string_of_nat.simps)

lemma sample_paint:
  "paint_rectangle (paint_rectangle black2 (0, 0) (1, 1) color 2) (0, - 19) (118, 0) color (- 1)
     = [[color, color], [color, color]]"
  by (simp add: paint_rectangle_def in_band_def black2_def)

lemma f32_finite_half: "f32_finite (1 / 2)"
  by (rule f32_finite_small) simp

lemma sample_run:
  assumes "fa < length (heap w)" "heap w ! fa = black2"
  shows "custom_visualization sample_cv2 sample_random w fa [sample_result] (1 / 2)
   = (Inr (Suc (length (heap w))),
      w\<lparr>rng := 45,
        heap := heap w @ [black2,
          [[(164, 239, 59), (164, 239, 59)], [(164, 239, 59), (164, 239, 59)]]],
        log := log w @ [Ev_rectangle (Suc (length (heap w))) (0, 0) (1, 1) (164, 239, 59) 2,
          Ev_rectangle (Suc (length (heap w))) (0, - 19) (118, 0) (164, 239, 59) (- 1),
          Ev_putText (Suc (length (heap w))) ''person 0.90'' (4, - 4) (1 / 2)
            (255, 255, 255) 2]\<rparr>)"
  using assms
  by (simp add: custom_visualization_def alloc_def sample_result_def detections_def
        sample_colors1 draw_detection_def draw_box_label_def np_index_def
        sample_overlay [OF f32_finite_half] sample_label
        cv_rectangle_def cv_putText_def int32_def py_int_def sample_box_def sample_paint
        nth_append list_update_append sample_cv2_sel)


section \<open>The colour table\<close>

text \<open>
  Claim C6. The generator is reseeded before the table is drawn, so the table, and the
  entry looked up for a class, are the same whatever state the program was in before (the
  state of the generator included): they depend on the seed and the number of classes only.
  The frame custom_visualization returns, the arrays and the calls it makes do not depend
  on the state of the generator either.
\<close>

theorem color_table_deterministic:
  "fst (class_colors np s w n) = fst (class_colors np s w' n)
   \<and> np_index (fst (class_colors np s w n)) class_id
       = np_index (fst (class_colors np s w' n)) class_id
   \<and> fst (custom_visualization cv np (w\<lparr>rng := g\<rparr>) fa results alpha)
       = fst (custom_visualization cv np w fa results alpha)
   \<and> heap (snd (custom_visualization cv np (w\<lparr>rng := g\<rparr>) fa results alpha))
       = heap (snd (custom_visualization cv np w fa results alpha))
   \<and> log (snd (custom_visualization cv np (w\<lparr>rng := g\<rparr>) fa results alpha))
       = log (snd (custom_visualization cv np w fa results alpha))"
proof -
  have c: "fst (class_colors np s w n) = fst (class_colors np s w' n)" for w w' :: "'a world"
    by (simp add: class_colors_def split: prod.splits)
  have v: "custom_visualization cv np (w\<lparr>rng := g\<rparr>) fa results alpha =
      (case custom_visualization cv np w fa results alpha of
         (r, w') \<Rightarrow> (r, if \<exists>x rest. results = x # rest \<and> masks x \<noteq> None then w' else w'\<lparr>rng := g\<rparr>))"
    by (auto simp: custom_visualization_def alloc_def class_colors_def Let_def
          split: list.splits option.splits prod.splits)
  show ?thesis
    using c [of w w'] unfolding v by (simp split: prod.splits)
qed




text \<open>
  With the dictionary \<open>names\<close> of the model the run of that detection still ends in an
  exception, later: the box is drawn in the wrapped colour, then \<open>names[-1]\<close> raises
  \<open>KeyError\<close>.
\<close>

lemma negative_class_id_key_error:
  "fst (draw_detection sample_cv2 [(164, 239, 59), (134, 209, 29), (104, 179, 254)]
         [(0, ''person''), (1, ''bicycle''), (2, ''car'')] (1 / 2) 0
         ([[0, 0], [0, 0]], sample_box, - 1) (1, world0\<lparr>heap := [black2, black2]\<rparr>))
     = Inl KeyError"
  by (simp add: draw_detection_def draw_box_label_def np_index_def
        sample_overlay [OF f32_finite_half] alloc_def cv_rectangle_def int32_def py_int_def
        sample_box_def Let_def)

section \<open>No detections, no masks\<close>

text \<open>
  Claim C7. When the sequence of detections is empty (the masks are \<open>None\<close>, or
  \<open>zip(masks, boxes, class_ids)\<close> has no element), custom_visualization returns a new
  array with the content of the frame, whatever alpha is; the frame itself is as it was and
  nothing is drawn.
\<close>

theorem empty_detections_unchanged:
  assumes "fa < length (heap w)"
    and "\<forall>ms. masks r = Some ms \<longrightarrow> detections r ms = []"
  shows "\<exists>a w'. custom_visualization cv np w fa (r # rest) alpha = (Inr a, w')
           \<and> heap w' ! a = heap w ! fa \<and> heap w' ! fa = heap w ! fa \<and> log w' = log w"
proof (cases "masks r")
  case None
  then show ?thesis
    using assms(1) by (simp add: custom_visualization_def alloc_def nth_append)
next
  case (Some ms)
  then have "detections r ms = []" using assms(2) by simp
  then show ?thesis
    using assms(1) Some
    by (simp add: custom_visualization_def alloc_def class_colors_def Let_def nth_append
          split: prod.splits)
qed

theorem empty_detections_unchanged_witness:
  "0 < length (heap (world0\<lparr>heap := [black2]\<rparr>))
   \<and> masks (sample_result\<lparr>masks := Some []\<rparr>) = Some []
   \<and> detections (sample_result\<lparr>masks := Some []\<rparr>) [] = []
   \<and> (\<exists>a w'. custom_visualization sample_cv2 sample_random (world0\<lparr>heap := [black2]\<rparr>) 0
                 [sample_result\<lparr>masks := Some []\<rparr>] (1 / 2) = (Inr a, w')
         \<and> heap w' ! a = black2 \<and> heap w' ! 0 = black2 \<and> log w' = [])"
proof -
  let ?w = "world0\<lparr>heap := [black2]\<rparr>" and ?r = "sample_result\<lparr>masks := Some []\<rparr>"
  have h1: "0 < length (heap ?w)" by simp
  have h2: "masks ?r = Some []" by simp
  have h3: "detections ?r [] = []" by (simp add: detections_def)
  have h4: "\<forall>ms. masks ?r = Some ms \<longrightarrow> detections ?r ms = []"
    using h3 by simp
  from empty_detections_unchanged [OF h1 h4, of sample_cv2 sample_random "[]" "1 / 2"]
  have "\<exists>a w'. custom_visualization sample_cv2 sample_random ?w 0 [?r] (1 / 2) = (Inr a, w')
         \<and> heap w' ! a = black2 \<and> heap w' ! 0 = black2 \<and> log w' = []"
    by (simp add: world0_def)
  with h1 h2 h3 show ?thesis by (intro conjI)
qed

text \<open>
  Claim C10. When \<open>results[0].masks\<close> is \<open>None\<close>, custom_visualization returns a new
  array with the content of the frame and changes nothing else: no call of
  \<open>cv2.rectangle\<close> or \<open>cv2.putText\<close> is made, whatever boxes the result carries. And
  whatever the results are, every array that existed before the call, the input frame among
  them, has the content it had.
\<close>

theorem no_masks_copy_and_input_preserved:
  assumes "fa < length (heap w)"
  shows "(masks r = None \<longrightarrow>
      custom_visualization cv np w fa (r # rest) alpha
        = (Inr (length (heap w)), w\<lparr>heap := heap w @ [heap w ! fa]\<rparr>))
   \<and> take (length (heap w)) (heap (snd (custom_visualization cv np w fa results alpha)))
       = heap w
   \<and> heap (snd (custom_visualization cv np w fa results alpha)) ! fa = heap w ! fa"
proof -
  have 1: "masks r = None \<longrightarrow>
      custom_visualization cv np w fa (r # rest) alpha
        = (Inr (length (heap w)), w\<lparr>heap := heap w @ [heap w ! fa]\<rparr>)"
    by (simp add: custom_visualization_def alloc_def)
  have 2: "take (length (heap w)) (heap (snd (custom_visualization cv np w fa results alpha)))
       = heap w"
  proof (cases results)
    case Nil
    then show ?thesis by (simp add: custom_visualization_def alloc_def)
  next
    case (Cons x rest')
    show ?thesis
    proof (cases "masks x")
      case None
      then show ?thesis using Cons by (simp add: custom_visualization_def alloc_def)
    next
      case (Some ms)
      define w0 where "w0 = w\<lparr>heap := heap w @ [heap w ! fa]\<rparr>"
      obtain colors w1 where c: "class_colors np 42 w0 (length (names x)) = (colors, w1)"
        by (cases "class_colors np 42 w0 (length (names x))") auto
      then have h1: "heap w1 = heap w0"
        by (auto simp: class_colors_def Let_def split: prod.splits)
      obtain r' w' where l: "draw_loop cv colors (names x) alpha fa (detections x ms)
          (length (heap w), w1) = (r', w')"
        by (cases "draw_loop cv colors (names x) alpha fa (detections x ms) (length (heap w), w1)")
          auto
      from draw_loop_effect [OF l] obtain ys where "heap w' = heap w1 @ ys" by blast
      then have "take (length (heap w)) (heap w') = heap w"
        using h1 by (simp add: w0_def)
      moreover have "custom_visualization cv np w fa results alpha = (r', w')"
        using Cons Some c l by (simp add: custom_visualization_def alloc_def w0_def)
      ultimately show ?thesis by simp
    qed
  qed
  have 3: "heap (snd (custom_visualization cv np w fa results alpha)) ! fa = heap w ! fa"
  proof -
    have "take (length (heap w)) (heap (snd (custom_visualization cv np w fa results alpha))) ! fa
        = heap (snd (custom_visualization cv np w fa results alpha)) ! fa"
      using assms by (rule nth_take)
    then show ?thesis unfolding 2 by simp
  qed
  show ?thesis using 1 2 3 by (intro conjI)
qed

theorem no_masks_copy_and_input_preserved_witness:
  "0 < length (heap (world0\<lparr>heap := [black2]\<rparr>))
   \<and> masks (sample_result\<lparr>masks := None\<rparr>) = None
   \<and> boxes (sample_result\<lparr>masks := None\<rparr>) = [sample_box]
   \<and> custom_visualization sample_cv2 sample_random (world0\<lparr>heap := [black2]\<rparr>) 0
        [sample_result\<lparr>masks := None\<rparr>] (1 / 2)
       = (Inr 1, world0\<lparr>heap := [black2, black2]\<rparr>)"
proof -
  have h: "0 < length (heap (world0\<lparr>heap := [black2]\<rparr>))" by simp
  show ?thesis
    using no_masks_copy_and_input_preserved [OF h, of "sample_result\<lparr>masks := None\<rparr>"
        sample_cv2 sample_random "[]" "1 / 2"]
    by (simp add: sample_result_def)
qed

section \<open>The frame-rate counter\<close>





section \<open>The mask blend of one detection\<close>

lemma blend_pixel_close:
  assumes "\<bar>alpha\<bar> \<le> 1"
  shows "list_all2 (\<lambda>v s. \<bar>chan v - s\<bar> \<le> 1 / 2 + 1 / 2 ^ 14)
           (channels (blend_pixel p c alpha)) (spec_blend p c alpha)"
proof -
  obtain a0 a1 a2 c0 c1 c2 where p: "p = (a0, a1, a2)" and c: "c = (c0, c1, c2)"
    by (cases p; cases c) auto
  show ?thesis
    unfolding p c blend_pixel.simps channels.simps spec_blend.simps
    by (intro list.rel_intros blend_channel_close [OF assms])
qed

text \<open>
  Claim C1, as the code has it. When \<open>cv2.resize\<close> delivers a mask of the frame's shape
  and the running frame has that shape too, the blend of lines 75-90 succeeds, and for a
  weight of magnitude up to \<open>2^20\<close>: a pixel whose resized mask value is above 0.5 gets, on
  each channel, the sum computed in single precision,
  \<open>saturate(fl(frame[p] + fl(color * fl(alpha))))\<close>, where \<open>fl\<close> rounds to the nearest
  float and \<open>saturate\<close> rounds to the nearest integer (ties to even) and clamps to 0..255;
  for a weight of magnitude up to 1 that is within \<open>1/2 + 2^-14\<close> of the claim's
  \<open>clamp(frame[p] + alpha * color, 0, 255)\<close>. Every other pixel keeps its value.
\<close>

theorem composite_single_detection:
  assumes "resize cv mask_i (width frame, height frame) = Inr m"
    and "shape_of m = shape_of frame"
    and "shape_of annotated = shape_of frame"
    and "\<bar>alpha\<bar> \<le> 2 ^ 20"
  shows "\<exists>out. mask_overlay cv frame annotated mask_i color alpha = Inr out \<and>
          (\<forall>y x. y < length frame \<longrightarrow> x < length (frame ! y) \<longrightarrow>
             (if 1 / 2 < m ! y ! x
              then out ! y ! x = blend_pixel (annotated ! y ! x) color alpha
                 \<and> (\<bar>alpha\<bar> \<le> 1 \<longrightarrow>
                      list_all2 (\<lambda>v s. \<bar>chan v - s\<bar> \<le> 1 / 2 + 1 / 2 ^ 14)
                        (channels (out ! y ! x)) (spec_blend (annotated ! y ! x) color alpha))
              else out ! y ! x = annotated ! y ! x))"
proof -
  obtain out where out: "mask_overlay cv frame annotated mask_i color alpha = Inr out"
    using mask_overlay_pixels [OF assms(1-3), of color alpha] by blast
  have "if 1 / 2 < m ! y ! x
        then out ! y ! x = blend_pixel (annotated ! y ! x) color alpha
           \<and> (\<bar>alpha\<bar> \<le> 1 \<longrightarrow>
                list_all2 (\<lambda>v s. \<bar>chan v - s\<bar> \<le> 1 / 2 + 1 / 2 ^ 14)
                  (channels (out ! y ! x)) (spec_blend (annotated ! y ! x) color alpha))
        else out ! y ! x = annotated ! y ! x"
    if "y < length frame" "x < length (frame ! y)" for y x
  proof (cases "1 / 2 < m ! y ! x")
    case True
    have e: "out ! y ! x = blend_pixel (annotated ! y ! x) color alpha"
      using mask_overlay_blend(2) [OF out assms(1,4) that] True by simp
    have "list_all2 (\<lambda>v s. \<bar>chan v - s\<bar> \<le> 1 / 2 + 1 / 2 ^ 14)
            (channels (out ! y ! x)) (spec_blend (annotated ! y ! x) color alpha)"
      if "\<bar>alpha\<bar> \<le> 1"
      unfolding e by (rule blend_pixel_close [OF that])
    then show ?thesis using True e by simp
  next
    case False
    then show ?thesis
      using mask_overlay_blend(2) [OF out assms(1,4) that] by simp
  qed
  then show ?thesis using out by blast
qed

theorem composite_single_detection_witness:
  "resize sample_cv2 [[1, 0]] (width ([[(0, 0, 0), (10, 20, 30)]] :: frame),
      height ([[(0, 0, 0), (10, 20, 30)]] :: frame)) = Inr [[1, 0]]
   \<and> shape_of ([[1, 0]] :: mask) = shape_of ([[(0, 0, 0), (10, 20, 30)]] :: frame)
   \<and> \<bar>1 / 4 :: real\<bar> \<le> 1
   \<and> (\<exists>out. mask_overlay sample_cv2 [[(0, 0, 0), (10, 20, 30)]] [[(0, 0, 0), (10, 20, 30)]]
               [[1, 0]] (1, 2, 3) (1 / 4) = Inr out
          \<and> out ! 0 ! 0 = (0, 0, 1) \<and> out ! 0 ! 1 = (10, 20, 30)
          \<and> list_all2 (\<lambda>v s. \<bar>chan v - s\<bar> \<le> 1 / 2 + 1 / 2 ^ 14)
               (channels (out ! 0 ! 0)) [1 / 4, 1 / 2, 3 / 4])"
proof -
  let ?F = "[[(0, 0, 0), (10, 20, 30)]] :: frame"
  have h1: "resize sample_cv2 [[1, 0]] (width ?F, height ?F) = Inr [[1, 0]]"
    by (simp add: sample_simps)
  have h2: "shape_of ([[1, 0]] :: mask) = shape_of ?F" by (simp add: shape_of_def)
  have h3: "shape_of ?F = shape_of ?F" ..
  have h4: "\<bar>1 / 4 :: real\<bar> \<le> 2 ^ 20" by simp
  have h5: "\<bar>1 / 4 :: real\<bar> \<le> 1" by simp
  obtain out where out: "mask_overlay sample_cv2 ?F ?F [[1, 0]] (1, 2, 3) (1 / 4) = Inr out"
    and px: "\<And>y x. y < length ?F \<Longrightarrow> x < length (?F ! y) \<Longrightarrow>
       (if 1 / 2 < ([[1, 0]] :: mask) ! y ! x
        then out ! y ! x = blend_pixel (?F ! y ! x) (1, 2, 3) (1 / 4)
           \<and> (\<bar>1 / 4 :: real\<bar> \<le> 1 \<longrightarrow>
                list_all2 (\<lambda>v s. \<bar>chan v - s\<bar> \<le> 1 / 2 + 1 / 2 ^ 14)
                  (channels (out ! y ! x)) (spec_blend (?F ! y ! x) (1, 2, 3) (1 / 4)))
        else out ! y ! x = ?F ! y ! x)"
    using composite_single_detection [OF h1 h2 h3 h4, of "(1, 2, 3)"] by blast
  have l: "0 < length ?F" "0 < length (?F ! 0)" by simp_all
  have c0: "1 / 2 < ([[1, 0]] :: mask) ! 0 ! 0" by simp
  note q = px [OF l, unfolded if_P [OF c0]]
  have p0: "out ! 0 ! 0 = (0, 0, 1)"
    using q [THEN conjunct1]
    by (simp add: blend_channel_quarter saturate_u8_def cvRound_def clamp_def chan_def)
  have p1: "out ! 0 ! 1 = (10, 20, 30)"
    using px [of 0 1] by simp
  have sb: "spec_blend (?F ! 0 ! 0) (1, 2, 3) (1 / 4) = [1 / 4, 1 / 2, 3 / 4]"
    by (simp add: clamp_def chan_def)
  have p2: "list_all2 (\<lambda>v s. \<bar>chan v - s\<bar> \<le> 1 / 2 + 1 / 2 ^ 14)
               (channels (out ! 0 ! 0)) [1 / 4, 1 / 2, 3 / 4]"
    using q [THEN conjunct2, rule_format, OF h5] unfolding sb .
  have "\<exists>out. mask_overlay sample_cv2 ?F ?F [[1, 0]] (1, 2, 3) (1 / 4) = Inr out
          \<and> out ! 0 ! 0 = (0, 0, 1) \<and> out ! 0 ! 1 = (10, 20, 30)
          \<and> list_all2 (\<lambda>v s. \<bar>chan v - s\<bar> \<le> 1 / 2 + 1 / 2 ^ 14)
               (channels (out ! 0 ! 0)) [1 / 4, 1 / 2, 3 / 4]"
    by (rule exI [of _ out]) (intro conjI out p0 p1 p2)
  with h1 h2 h5 show ?thesis by (intro conjI)
qed

text \<open>
  Claim C1 as stated fails, and not only because the result is an 8-bit value. On a black
  pixel under the mask: colour 1 and weight 1/4 give 0 where the claim's formula gives
  1/4; colour 95 and the default weight 0.3 give 29 where the formula gives 28.5, because
  the float nearest to 0.3 is a little above it; colour 3 and the weight \<open>1/2 - 2^-27\<close>
  give 2 where the formula gives a value below 1.5, whose nearest integer is 1, because
  that weight is narrowed to the float 1/2.
\<close>

theorem composite_single_detection_counterexample:
  "mask_overlay sample_cv2 [[(0, 0, 0)]] [[(0, 0, 0)]] [[1]] (1, 1, 1) (1 / 4)
     = Inr [[(0, 0, 0)]]
   \<and> spec_blend (0, 0, 0) (1, 1, 1) (1 / 4) = [1 / 4, 1 / 4, 1 / 4]
   \<and> mask_overlay sample_cv2 [[(0, 0, 0)]] [[(0, 0, 0)]] [[1]] (95, 95, 95) (3 / 10)
     = Inr [[(29, 29, 29)]]
   \<and> spec_blend (0, 0, 0) (95, 95, 95) (3 / 10) = [57 / 2, 57 / 2, 57 / 2]
   \<and> mask_overlay sample_cv2 [[(0, 0, 0)]] [[(0, 0, 0)]] [[1]] (3, 3, 3)
       (67108863 / 134217728) = Inr [[(2, 2, 2)]]
   \<and> spec_blend (0, 0, 0) (3, 3, 3) (67108863 / 134217728)
     = [201326589 / 134217728, 201326589 / 134217728, 201326589 / 134217728]
   \<and> cvRound (201326589 / 134217728) = 1"
proof -
  have 1: "mask_overlay sample_cv2 [[(0, 0, 0)]] [[(0, 0, 0)]] [[1]] (1, 1, 1) (1 / 4)
     = Inr [[(0, 0, 0)]]"
    by (simp add: sample_simps weighted_channel_overlay blend_channel_quarter
          saturate_u8_def cvRound_def clamp_def chan_def)
  have 2: "mask_overlay sample_cv2 [[(0, 0, 0)]] [[(0, 0, 0)]] [[1]] (95, 95, 95) (3 / 10)
     = Inr [[(29, 29, 29)]]"
    by (simp add: sample_simps weighted_channel_overlay blend_channel_default)
  have 3: "mask_overlay sample_cv2 [[(0, 0, 0)]] [[(0, 0, 0)]] [[1]] (3, 3, 3)
       (67108863 / 134217728) = Inr [[(2, 2, 2)]]"
    by (simp add: sample_simps weighted_channel_overlay blend_channel_below_half)
  have 4: "spec_blend (0, 0, 0) (1, 1, 1) (1 / 4) = [1 / 4, 1 / 4, 1 / 4]"
    "spec_blend (0, 0, 0) (95, 95, 95) (3 / 10) = [57 / 2, 57 / 2, 57 / 2]"
    "spec_blend (0, 0, 0) (3, 3, 3) (67108863 / 134217728)
     = [201326589 / 134217728, 201326589 / 134217728, 201326589 / 134217728]"
    by (simp_all add: clamp_def chan_def)
  have 5: "cvRound (201326589 / 134217728) = 1" by (simp add: cvRound_def)
  show ?thesis using 1 2 3 4 5 by (intro conjI)
qed


section \<open>A detection whose mask is below the threshold\<close>

text \<open>
  Claim C9, as the code has it. When no value of the resized mask is above 0.5 (and the
  weight is a finite float), the blend of lines 75-90 returns the running frame as it was.
  The detection as a whole is no no-op: lines 92-123 run all the same, on that unchanged
  frame. With box coordinates that fit a 32-bit int the box is drawn in every case; when
  the class id has no entry in \<open>names\<close> the detection then ends in \<open>KeyError\<close>; when it
  has one, and the label's coordinates fit as well, the label background and the label
  text are drawn on top.
\<close>

theorem empty_mask_detection:
  assumes "resize cv mask_i (width (heap w ! fa), height (heap w ! fa)) = Inr m"
    and "shape_of m = shape_of (heap w ! fa)"
    and "shape_of (heap w ! a) = shape_of (heap w ! fa)"
    and "\<forall>row \<in> set m. \<forall>v \<in> set row. v \<le> 1 / 2"
    and "f32_finite mask_alpha"
    and "np_index colors class_id = Inr color"
    and "x1 = py_int (box_x1 bx)" "y1 = py_int (box_y1 bx)"
    and "x2 = py_int (box_x2 bx)" "y2 = py_int (box_y2 bx)"
    and "int32 x1" "int32 y1" "int32 x2" "int32 y2"
  shows "mask_overlay cv (heap w ! fa) (heap w ! a) mask_i color mask_alpha = Inr (heap w ! a)
     \<and> (\<exists>evs. log (snd (draw_detection cv colors nms mask_alpha fa (mask_i, bx, class_id) (a, w)))
            = log w @ Ev_rectangle (length (heap w)) (x1, y1) (x2, y2) color 2 # evs)
     \<and> (map_of nms class_id = None \<longrightarrow>
          draw_detection cv colors nms mask_alpha fa (mask_i, bx, class_id) (a, w) =
            (Inl KeyError,
             w\<lparr>heap := heap w @ [rectangle cv (heap w ! a) (x1, y1) (x2, y2) color 2],
               log := log w @ [Ev_rectangle (length (heap w)) (x1, y1) (x2, y2) color 2]\<rparr>))
     \<and> (\<forall>name tw th.
          map_of nms class_id = Some name
          \<and> getTextSize cv (label_text name (box_conf bx)) (1 / 2) 2 = (tw, th)
          \<and> int32 (y1 - th - 8) \<and> int32 (x1 + tw + 8) \<and> int32 (x1 + 4) \<and> int32 (y1 - 4) \<longrightarrow>
          draw_detection cv colors nms mask_alpha fa (mask_i, bx, class_id) (a, w) =
            (Inr (length (heap w)),
             w\<lparr>heap := heap w @
                 [putText cv
                    (rectangle cv (rectangle cv (heap w ! a) (x1, y1) (x2, y2) color 2)
                       (x1, y1 - th - 8) (x1 + tw + 8, y1) color (- 1))
                    (label_text name (box_conf bx)) (x1 + 4, y1 - 4) (1 / 2) (255, 255, 255) 2],
               log := log w @
                 [Ev_rectangle (length (heap w)) (x1, y1) (x2, y2) color 2,
                  Ev_rectangle (length (heap w)) (x1, y1 - th - 8) (x1 + tw + 8, y1) color (- 1),
                  Ev_putText (length (heap w)) (label_text name (box_conf bx)) (x1 + 4, y1 - 4)
                    (1 / 2) (255, 255, 255) 2]\<rparr>))"
proof -
  define n where "n = length (heap w)"
  define w1 where "w1 = w\<lparr>heap := heap w @ [heap w ! a]\<rparr>"
  define box_ev where "box_ev = Ev_rectangle n (x1, y1) (x2, y2) color 2"
  define w2 where "w2 = w\<lparr>heap := heap w @ [rectangle cv (heap w ! a) (x1, y1) (x2, y2) color 2],
      log := log w @ [box_ev]\<rparr>"
  have ov: "mask_overlay cv (heap w ! fa) (heap w ! a) mask_i color mask_alpha = Inr (heap w ! a)"
    by (rule mask_overlay_empty [OF assms(1-5)])
  have dd: "draw_detection cv colors nms mask_alpha fa (mask_i, bx, class_id) (a, w) =
      (case draw_box_label cv nms bx class_id color n w1 of
         (Inl e, w') \<Rightarrow> (Inl e, w') | (Inr u, w') \<Rightarrow> (Inr n, w'))"
    unfolding n_def w1_def by (simp add: draw_detection_def assms(6) ov alloc_def)
  have r1: "cv_rectangle cv w1 n (x1, y1) (x2, y2) color 2 = Inr w2"
    using assms(11-14) by (simp add: cv_rectangle_def w1_def w2_def n_def box_ev_def)
  have none: "draw_box_label cv nms bx class_id color n w1 = (Inl KeyError, w2)"
    if "map_of nms class_id = None"
    using that r1
    by (simp add: draw_box_label_def assms(7-10) [symmetric])
  have some: "draw_box_label cv nms bx class_id color n w1 =
      (case cv_rectangle cv w2 n (x1, y1 - th - 8) (x1 + tw + 8, y1) color (- 1) of
         Inl e \<Rightarrow> (Inl e, w2)
       | Inr w3 \<Rightarrow>
          (case cv_putText cv w3 n (label_text name (box_conf bx)) (x1 + 4, y1 - 4) (1 / 2)
                  (255, 255, 255) 2 of
             Inl e \<Rightarrow> (Inl e, w3)
           | Inr w4 \<Rightarrow> (Inr (), w4)))"
    if "map_of nms class_id = Some name"
      "getTextSize cv (label_text name (box_conf bx)) (1 / 2) 2 = (tw, th)" for name tw th
    using that r1
    by (simp add: draw_box_label_def assms(7-10) [symmetric])
  have l2: "log w2 = log w @ [box_ev]" by (simp add: w2_def)
  have c2: "\<exists>evs. log (snd (draw_detection cv colors nms mask_alpha fa (mask_i, bx, class_id) (a, w)))
            = log w @ box_ev # evs"
  proof (cases "map_of nms class_id")
    case None
    show ?thesis unfolding dd none [OF None] using l2 by simp
  next
    case (Some name)
    obtain tw th where ts: "getTextSize cv (label_text name (box_conf bx)) (1 / 2) 2 = (tw, th)"
      by (cases "getTextSize cv (label_text name (box_conf bx)) (1 / 2) 2") auto
    show ?thesis
    proof (cases "cv_rectangle cv w2 n (x1, y1 - th - 8) (x1 + tw + 8, y1) color (- 1)")
      case (Inl e)
      have "draw_box_label cv nms bx class_id color n w1 = (Inl e, w2)"
        using Inl by (simp add: some [OF Some ts])
      then show ?thesis unfolding dd using l2 by simp
    next
      case (Inr w3)
      have l3: "log w3 = log w @ box_ev
          # [Ev_rectangle n (x1, y1 - th - 8) (x1 + tw + 8, y1) color (- 1)]"
        unfolding cv_rectangle_effect [OF Inr] using l2 by simp
      show ?thesis
      proof (cases "cv_putText cv w3 n (label_text name (box_conf bx)) (x1 + 4, y1 - 4) (1 / 2)
                  (255, 255, 255) 2")
        case (Inl e)
        have "draw_box_label cv nms bx class_id color n w1 = (Inl e, w3)"
          using Inr Inl by (simp add: some [OF Some ts])
        then show ?thesis unfolding dd using l3 by simp
      next
        case w4: (Inr w4)
        have "log w4 = log w @ box_ev
          # [Ev_rectangle n (x1, y1 - th - 8) (x1 + tw + 8, y1) color (- 1),
             Ev_putText n (label_text name (box_conf bx)) (x1 + 4, y1 - 4) (1 / 2)
               (255, 255, 255) 2]"
          unfolding cv_putText_effect [OF w4] using l3 by simp
        moreover have "draw_box_label cv nms bx class_id color n w1 = (Inr (), w4)"
          using Inr w4 by (simp add: some [OF Some ts])
        ultimately show ?thesis unfolding dd by simp
      qed
    qed
  qed
  have c3: "draw_detection cv colors nms mask_alpha fa (mask_i, bx, class_id) (a, w)
      = (Inl KeyError, w2)" if "map_of nms class_id = None"
    unfolding dd none [OF that] by simp
  have c4: "draw_detection cv colors nms mask_alpha fa (mask_i, bx, class_id) (a, w) =
            (Inr n,
             w\<lparr>heap := heap w @
                 [putText cv
                    (rectangle cv (rectangle cv (heap w ! a) (x1, y1) (x2, y2) color 2)
                       (x1, y1 - th - 8) (x1 + tw + 8, y1) color (- 1))
                    (label_text name (box_conf bx)) (x1 + 4, y1 - 4) (1 / 2) (255, 255, 255) 2],
               log := log w @
                 [box_ev,
                  Ev_rectangle n (x1, y1 - th - 8) (x1 + tw + 8, y1) color (- 1),
                  Ev_putText n (label_text name (box_conf bx)) (x1 + 4, y1 - 4)
                    (1 / 2) (255, 255, 255) 2]\<rparr>)"
    if h: "map_of nms class_id = Some name
          \<and> getTextSize cv (label_text name (box_conf bx)) (1 / 2) 2 = (tw, th)
          \<and> int32 (y1 - th - 8) \<and> int32 (x1 + tw + 8) \<and> int32 (x1 + 4) \<and> int32 (y1 - 4)"
    for name tw th
    unfolding dd some [OF h [THEN conjunct1] h [THEN conjunct2, THEN conjunct1]]
    using h assms(11-14)
    by (simp add: cv_rectangle_def cv_putText_def w2_def n_def)
  show ?thesis
    using ov c2 c3 c4 unfolding w2_def box_ev_def n_def by (intro conjI allI impI)
qed

theorem empty_mask_detection_witness:
  "resize sample_cv2 [[0, 1 / 2], [0, 0]] (width black2, height black2) = Inr [[0, 1 / 2], [0, 0]]
   \<and> threshold [[0, 1 / 2], [0, 0]] = [[0, 0], [0, 0]]
   \<and> f32_finite (3 / 10)
   \<and> np_index [(200, 0, 0) :: pixel] 0 = Inr (200, 0, 0)
   \<and> int32 0 \<and> int32 1
   \<and> map_of [(0 :: int, ''person'')] 0 = Some ''person''
   \<and> mask_overlay sample_cv2 black2 black2 [[0, 1 / 2], [0, 0]] (200, 0, 0) (3 / 10) = Inr black2
   \<and> draw_detection sample_cv2 [(200, 0, 0)] [(0, ''person'')] (3 / 10) 0
        ([[0, 1 / 2], [0, 0]], sample_box, 0) (1, world0\<lparr>heap := [black2, black2]\<rparr>)
     = (Inr 2,
        world0\<lparr>heap := [black2, black2,
                  [[(200, 0, 0), (200, 0, 0)], [(200, 0, 0), (200, 0, 0)]]],
          log := [Ev_rectangle 2 (0, 0) (1, 1) (200, 0, 0) 2,
                  Ev_rectangle 2 (0, - 19) (118, 0) (200, 0, 0) (- 1),
                  Ev_putText 2 ''person 0.90'' (4, - 4) (1 / 2) (255, 255, 255) 2]\<rparr>)"
proof -
  let ?w = "world0\<lparr>heap := [black2, black2]\<rparr>"
  let ?m = "[[0, 1 / 2], [0, 0]] :: mask"
  have h1: "resize sample_cv2 ?m (width (heap ?w ! 0), height (heap ?w ! 0)) = Inr ?m"
    by (simp add: sample_simps black2_def)
  have h2: "shape_of ?m = shape_of (heap ?w ! 0)" by (simp add: shape_of_def black2_def)
  have h3: "shape_of (heap ?w ! 1) = shape_of (heap ?w ! 0)" by simp
  have h4: "\<forall>row \<in> set ?m. \<forall>v \<in> set row. v \<le> 1 / 2" by simp
  have h5: "f32_finite (3 / 10)" by (rule f32_finite_small) simp
  have h6: "np_index [(200, 0, 0) :: pixel] 0 = Inr (200, 0, 0)" by (simp add: np_index_def)
  have c: "(0 :: int) = py_int (box_x1 sample_box)" "(0 :: int) = py_int (box_y1 sample_box)"
    "(1 :: int) = py_int (box_x2 sample_box)" "(1 :: int) = py_int (box_y2 sample_box)"
    by (simp_all add: sample_box_def py_int_def)
  have i: "int32 0" "int32 1" by (simp_all add: int32_def)
  have nm: "map_of [(0 :: int, ''person'')] 0 = Some ''person''" by simp
  have ts: "getTextSize sample_cv2 (label_text ''person'' (box_conf sample_box)) (1 / 2) 2
      = (110, 11)"
    by (simp add: sample_cv2_sel sample_box_def sample_label)
  have j: "int32 (0 - 11 - 8)" "int32 (0 + 110 + 8)" "int32 (0 + 4)" "int32 (0 - 4)"
    by (simp_all add: int32_def)
  note t = empty_mask_detection [OF h1 h2 h3 h4 h5 h6 c i(1) i(1) i(2) i(2),
      of "[(0, ''person'')]"]
  have ov: "mask_overlay sample_cv2 black2 black2 ?m (200, 0, 0) (3 / 10) = Inr black2"
    using t [THEN conjunct1] by simp
  have "draw_detection sample_cv2 [(200, 0, 0)] [(0, ''person'')] (3 / 10) 0
        (?m, sample_box, 0) (1, ?w)
     = (Inr 2,
        world0\<lparr>heap := [black2, black2,
                  [[(200, 0, 0), (200, 0, 0)], [(200, 0, 0), (200, 0, 0)]]],
          log := [Ev_rectangle 2 (0, 0) (1, 1) (200, 0, 0) 2,
                  Ev_rectangle 2 (0, - 19) (118, 0) (200, 0, 0) (- 1),
                  Ev_putText 2 ''person 0.90'' (4, - 4) (1 / 2) (255, 255, 255) 2]\<rparr>)"
    using t [THEN conjunct2, THEN conjunct2, THEN conjunct2, rule_format,
        of "''person''" 110 11] nm ts j
    by (simp add: sample_cv2_sel sample_box_def sample_label sample_paint world0_def)
  moreover have "threshold ?m = [[0, 0], [0, 0]]" by (simp add: threshold_def)
  moreover have "resize sample_cv2 ?m (width black2, height black2) = Inr ?m"
    using h1 by simp
  ultimately show ?thesis using h5 h6 i nm ov by (intro conjI)
qed

text \<open>
  Claim C9 as stated fails: a detection with an all-zero mask and the box from (0, 0) to
  (1, 1) on a black two by two frame leaves every pixel in the colour of its class.
\<close>

theorem empty_mask_detection_counterexample:
  "resize sample_cv2 [[0, 0], [0, 0]] (width black2, height black2) = Inr [[0, 0], [0, 0]]
   \<and> threshold [[0, 0], [0, 0]] = [[0, 0], [0, 0]]
   \<and> heap (world0\<lparr>heap := [black2, black2]\<rparr>) ! 1 = black2
   \<and> fst (draw_detection sample_cv2 [(200, 0, 0)] [(0, ''person'')] (1 / 2) 0
          ([[0, 0], [0, 0]], sample_box, 0) (1, world0\<lparr>heap := [black2, black2]\<rparr>)) = Inr 2
   \<and> heap (snd (draw_detection sample_cv2 [(200, 0, 0)] [(0, ''person'')] (1 / 2) 0
          ([[0, 0], [0, 0]], sample_box, 0) (1, world0\<lparr>heap := [black2, black2]\<rparr>))) ! 2
       = [[(200, 0, 0), (200, 0, 0)], [(200, 0, 0), (200, 0, 0)]]
   \<and> [[(200, 0, 0), (200, 0, 0)], [(200, 0, 0), (200, 0, 0)]] \<noteq> black2"
proof -
  have o: "mask_overlay sample_cv2 black2 black2 [[0, 0], [0, 0]] (200, 0, 0) (1 / 2) = Inr black2"
    by (rule sample_overlay [OF f32_finite_half])
  have d: "draw_detection sample_cv2 [(200, 0, 0)] [(0, ''person'')] (1 / 2) 0
          ([[0, 0], [0, 0]], sample_box, 0) (1, world0\<lparr>heap := [black2, black2]\<rparr>)
     = (Inr 2,
        world0\<lparr>heap := [black2, black2,
                  [[(200, 0, 0), (200, 0, 0)], [(200, 0, 0), (200, 0, 0)]]],
          log := [Ev_rectangle 2 (0, 0) (1, 1) (200, 0, 0) 2,
                  Ev_rectangle 2 (0, - 19) (118, 0) (200, 0, 0) (- 1),
                  Ev_putText 2 ''person 0.90'' (4, - 4) (1 / 2) (255, 255, 255) 2]\<rparr>)"
    by (simp add: draw_detection_def draw_box_label_def np_index_def o sample_label
          alloc_def cv_rectangle_def cv_putText_def int32_def py_int_def sample_box_def
          sample_paint sample_cv2_sel world0_def)
  have r: "resize sample_cv2 [[0, 0], [0, 0]] (width black2, height black2) = Inr [[0, 0], [0, 0]]"
    by (simp add: sample_simps black2_def)
  have t: "threshold [[0, 0], [0, 0]] = [[0, 0], [0, 0]]" by (simp add: threshold_def)
  have n: "[[(200, 0, 0), (200, 0, 0)], [(200, 0, 0), (200, 0, 0)]] \<noteq> black2"
    by (simp add: black2_def)
  show ?thesis unfolding d using r t n by simp
qed


section \<open>The mask blends of two detections\<close>

text \<open>Drawing calls that keep a pixel, one after the other.\<close>

lemma keeps_rectangle:
  assumes "keeps_pixel cv (Ev_rectangle a pt1 pt2 color thickness) y x"
    and "y < length img" "x < length (img ! y)" "img ! y ! x = p"
  shows "y < length (rectangle cv img pt1 pt2 color thickness)"
    "x < length (rectangle cv img pt1 pt2 color thickness ! y)"
    "rectangle cv img pt1 pt2 color thickness ! y ! x = p"
  using assms by auto

lemma keeps_putText:
  assumes "keeps_pixel cv (Ev_putText a txt org scale color thickness) y x"
    and "y < length img" "x < length (img ! y)" "img ! y ! x = p"
  shows "y < length (putText cv img txt org scale color thickness)"
    "x < length (putText cv img txt org scale color thickness ! y)"
    "putText cv img txt org scale color thickness ! y ! x = p"
  using assms by auto

text \<open>
  A detection that completes: its colour, its blend, the one array it adds, and the pixels
  its drawing calls keep.
\<close>

lemma draw_detection_success:
  assumes "draw_detection cv colors nms alpha fa (m, b, k) (a, w) = (Inr a', w')"
  shows "\<exists>color blended img evs.
           np_index colors k = Inr color
           \<and> mask_overlay cv (heap w ! fa) (heap w ! a) m color alpha = Inr blended
           \<and> a' = length (heap w) \<and> heap w' = heap w @ [img] \<and> log w' = log w @ evs
           \<and> (\<forall>y x. (\<forall>e \<in> set evs. keeps_pixel cv e y x) \<longrightarrow>
                 y < length blended \<longrightarrow> x < length (blended ! y) \<longrightarrow>
                 y < length img \<and> x < length (img ! y) \<and> img ! y ! x = blended ! y ! x)"
proof -
  obtain color where col: "np_index colors k = Inr color"
    using assms by (auto simp: draw_detection_def split: sum.splits)
  obtain blended where bl: "mask_overlay cv (heap w ! fa) (heap w ! a) m color alpha = Inr blended"
    using assms col by (auto simp: draw_detection_def split: sum.splits)
  define n where "n = length (heap w)"
  define w1 where "w1 = w\<lparr>heap := heap w @ [blended]\<rparr>"
  have dl: "draw_box_label cv nms b k color n w1 = (Inr (), w')" and a': "a' = n"
    using assms col bl unfolding n_def w1_def
    by (auto simp: draw_detection_def alloc_def split: sum.splits prod.splits)
  define x1 where "x1 = py_int (box_x1 b)"
  define y1 where "y1 = py_int (box_y1 b)"
  define x2 where "x2 = py_int (box_x2 b)"
  define y2 where "y2 = py_int (box_y2 b)"
  note d = draw_box_label_def Let_def x1_def [symmetric] y1_def [symmetric]
    x2_def [symmetric] y2_def [symmetric]
  obtain w2 where r1: "cv_rectangle cv w1 n (x1, y1) (x2, y2) color 2 = Inr w2"
    using dl by (auto simp: d split: sum.splits)
  obtain name where nm: "map_of nms k = Some name"
    using dl r1 by (auto simp: d split: option.splits)
  define label where "label = label_text name (box_conf b)"
  obtain tw th where ts: "getTextSize cv label (1 / 2) 2 = (tw, th)"
    by (cases "getTextSize cv label (1 / 2) 2") auto
  obtain w3 where r2: "cv_rectangle cv w2 n (x1, y1 - th - 8) (x1 + tw + 8, y1) color (- 1) = Inr w3"
    using dl r1 nm ts by (auto simp: d label_def [symmetric] split: sum.splits)
  have r3: "cv_putText cv w3 n label (x1 + 4, y1 - 4) (1 / 2) (255, 255, 255) 2 = Inr w'"
    using dl r1 nm ts r2 by (auto simp: d label_def [symmetric] split: sum.splits)
  define e1 where "e1 = Ev_rectangle n (x1, y1) (x2, y2) color 2"
  define e2 where "e2 = Ev_rectangle n (x1, y1 - th - 8) (x1 + tw + 8, y1) color (- 1)"
  define e3 where "e3 = Ev_putText n label (x1 + 4, y1 - 4) (1 / 2) (255, 255, 255) 2"
  define i1 where "i1 = rectangle cv blended (x1, y1) (x2, y2) color 2"
  define i2 where "i2 = rectangle cv i1 (x1, y1 - th - 8) (x1 + tw + 8, y1) color (- 1)"
  define i3 where "i3 = putText cv i2 label (x1 + 4, y1 - 4) (1 / 2) (255, 255, 255) 2"
  have s2: "heap w2 = heap w @ [i1]" "log w2 = log w @ [e1]"
    unfolding cv_rectangle_effect [OF r1] by (simp_all add: w1_def n_def i1_def e1_def)
  have s3: "heap w3 = heap w @ [i2]" "log w3 = log w @ [e1, e2]"
    unfolding cv_rectangle_effect [OF r2] using s2 by (simp_all add: n_def i2_def e2_def)
  have s4: "heap w' = heap w @ [i3]" "log w' = log w @ [e1, e2, e3]"
    unfolding cv_putText_effect [OF r3] using s3 by (simp_all add: n_def i3_def e3_def)
  have keep: "y < length i3 \<and> x < length (i3 ! y) \<and> i3 ! y ! x = blended ! y ! x"
    if k: "\<forall>e \<in> set [e1, e2, e3]. keeps_pixel cv e y x"
      and l: "y < length blended" "x < length (blended ! y)" for y x
  proof -
    have k1: "keeps_pixel cv (Ev_rectangle n (x1, y1) (x2, y2) color 2) y x"
      and k2: "keeps_pixel cv (Ev_rectangle n (x1, y1 - th - 8) (x1 + tw + 8, y1) color (- 1)) y x"
      and k3: "keeps_pixel cv (Ev_putText n label (x1 + 4, y1 - 4) (1 / 2) (255, 255, 255) 2) y x"
      using k by (simp_all add: e1_def e2_def e3_def)
    note a1 = keeps_rectangle [OF k1 l refl, folded i1_def]
    note a2 = keeps_rectangle [OF k2 a1, folded i2_def]
    note a3 = keeps_putText [OF k3 a2, folded i3_def]
    show ?thesis using a3 by simp
  qed
  show ?thesis
    using col bl a' s4 keep unfolding n_def
    by (intro exI [of _ color] exI [of _ blended] exI [of _ i3] exI [of _ "[e1, e2, e3]"]) simp
qed

lemma draw_loop_two:
  assumes run: "draw_loop cv colors nms alpha fa [(m1, b1, k1), (m2, b2, k2)] (a, w) = (Inr a', w')"
    and fa: "fa < length (heap w)"
    and res: "resize cv m1 (width (heap w ! fa), height (heap w ! fa)) = Inr r1"
      "resize cv m2 (width (heap w ! fa), height (heap w ! fa)) = Inr r2"
    and col: "np_index colors k1 = Inr c1" "np_index colors k2 = Inr c2"
    and px: "y < length (heap w ! fa)" "x < length (heap w ! fa ! y)"
    and cover: "1 / 2 < r1 ! y ! x" "1 / 2 < r2 ! y ! x"
    and kept: "\<forall>e \<in> set (drop (length (log w)) (log w')). keeps_pixel cv e y x"
    and al: "\<bar>alpha\<bar> \<le> 2 ^ 20"
  shows "heap w' ! a' ! y ! x = blend_pixel (blend_pixel (heap w ! a ! y ! x) c1 alpha) c2 alpha"
proof -
  define frame where "frame = heap w ! fa"
  obtain ra wa where d1: "draw_detection cv colors nms alpha fa (m1, b1, k1) (a, w) = (ra, wa)"
    by (cases "draw_detection cv colors nms alpha fa (m1, b1, k1) (a, w)") auto
  obtain a1 where ra: "ra = Inr a1"
    using run d1 by (cases ra) simp_all
  have d2: "draw_detection cv colors nms alpha fa (m2, b2, k2) (a1, wa) = (Inr a', w')"
    using run d1 ra
    by (cases "draw_detection cv colors nms alpha fa (m2, b2, k2) (a1, wa)")
      (auto split: sum.splits)
  from draw_detection_success [OF d1 [unfolded ra]] col(1)
  obtain bl1 img1 evs1 where s1:
    "mask_overlay cv frame (heap w ! a) m1 c1 alpha = Inr bl1"
    "a1 = length (heap w)" "heap wa = heap w @ [img1]" "log wa = log w @ evs1"
    "\<And>y x. (\<forall>e \<in> set evs1. keeps_pixel cv e y x) \<Longrightarrow>
        y < length bl1 \<Longrightarrow> x < length (bl1 ! y) \<Longrightarrow>
        y < length img1 \<and> x < length (img1 ! y) \<and> img1 ! y ! x = bl1 ! y ! x"
    unfolding frame_def by auto
  have f2: "heap wa ! fa = frame" "heap wa ! a1 = img1"
    using s1(2,3) fa by (simp_all add: nth_append frame_def)
  from draw_detection_success [OF d2] col(2)
  obtain bl2 img2 evs2 where s2:
    "mask_overlay cv frame img1 m2 c2 alpha = Inr bl2"
    "a' = length (heap wa)" "heap w' = heap wa @ [img2]" "log w' = log wa @ evs2"
    "\<And>y x. (\<forall>e \<in> set evs2. keeps_pixel cv e y x) \<Longrightarrow>
        y < length bl2 \<Longrightarrow> x < length (bl2 ! y) \<Longrightarrow>
        y < length img2 \<and> x < length (img2 ! y) \<and> img2 ! y ! x = bl2 ! y ! x"
    unfolding f2 by auto
  have "drop (length (log w)) (log w') = evs1 @ evs2"
    using s1(4) s2(4) by simp
  then have k: "\<forall>e \<in> set evs1. keeps_pixel cv e y x" "\<forall>e \<in> set evs2. keeps_pixel cv e y x"
    using kept by auto
  have pf: "y < length frame" "x < length (frame ! y)" using px by (simp_all add: frame_def)
  note b1 = mask_overlay_blend [OF s1(1) res(1) [folded frame_def] al pf]
  have l1: "y < length bl1" "x < length (bl1 ! y)"
    using shape_of_nth [OF b1(1)] pf by simp_all
  have p1: "img1 ! y ! x = blend_pixel (heap w ! a ! y ! x) c1 alpha"
    using s1(5) [OF k(1) l1] b1(2) cover(1) by simp
  note b2 = mask_overlay_blend [OF s2(1) res(2) [folded frame_def] al pf]
  have l2: "y < length bl2" "x < length (bl2 ! y)"
    using shape_of_nth [OF b2(1)] pf by simp_all
  have p2: "img2 ! y ! x = blend_pixel (img1 ! y ! x) c2 alpha"
    using s2(5) [OF k(2) l2] b2(2) cover(2) by simp
  have "heap w' ! a' = img2" using s2(2,3) by simp
  then show ?thesis using p1 p2 by simp
qed

lemma blend_pixel_twice_close:
  assumes "\<bar>alpha\<bar> \<le> 1"
  shows "list_all2 (\<lambda>v s. \<bar>chan v - s\<bar> \<le> 1 + 1 / 2 ^ 13)
           (channels (blend_pixel (blend_pixel p c alpha) d alpha)) (spec_blend2 p c d alpha)"
proof -
  obtain a0 a1 a2 c0 c1 c2 d0 d1 d2
    where p: "p = (a0, a1, a2)" and c: "c = (c0, c1, c2)" and d: "d = (d0, d1, d2)"
    by (cases p; cases c; cases d) auto
  show ?thesis
    unfolding p c d blend_pixel.simps channels.simps spec_blend2.simps
    by (intro list.rel_intros blend_channel_twice_close [OF assms])
qed

text \<open>
  Claim C2, as the code has it. custom_visualization on two detections blends the first,
  draws its box and label, blends the second into the result and draws its box and label.
  When it completes, a pixel of the frame that is under both resized masks and that none
  of the six drawing calls touches has, for a weight of magnitude up to \<open>2^20\<close>, the two
  single-precision blends applied in order, each rounded and saturated to 8 bits:
  \<open>sat(fl(sat(fl(frame[p] + fl(C1 * fl(alpha)))) + fl(C2 * fl(alpha))))\<close>. The blend is
  additive with saturation: for a weight of magnitude up to 1 the value is within
  \<open>1 + 2^-13\<close> of the claim's \<open>clamp(frame[p] + alpha * C1 + alpha * C2, 0, 255)\<close>.
\<close>

theorem composite_two_detections:
  assumes "custom_visualization cv np w fa (r # rest) alpha = (Inr a', w')"
    and "fa < length (heap w)"
    and "masks r = Some ms"
    and "detections r ms = [(m1, b1, k1), (m2, b2, k2)]"
    and "resize cv m1 (width (heap w ! fa), height (heap w ! fa)) = Inr r1"
    and "resize cv m2 (width (heap w ! fa), height (heap w ! fa)) = Inr r2"
    and "np_index (fst (class_colors np 42 w (length (names r)))) k1 = Inr c1"
    and "np_index (fst (class_colors np 42 w (length (names r)))) k2 = Inr c2"
    and "y < length (heap w ! fa)" and "x < length (heap w ! fa ! y)"
    and "1 / 2 < r1 ! y ! x" and "1 / 2 < r2 ! y ! x"
    and "\<forall>e \<in> set (drop (length (log w)) (log w')). keeps_pixel cv e y x"
    and "\<bar>alpha\<bar> \<le> 2 ^ 20"
  shows "heap w' ! a' ! y ! x =
           blend_pixel (blend_pixel (heap w ! fa ! y ! x) c1 alpha) c2 alpha
     \<and> (\<bar>alpha\<bar> \<le> 1 \<longrightarrow>
          list_all2 (\<lambda>v s. \<bar>chan v - s\<bar> \<le> 1 + 1 / 2 ^ 13)
            (channels (heap w' ! a' ! y ! x)) (spec_blend2 (heap w ! fa ! y ! x) c1 c2 alpha))"
proof -
  define w0 where "w0 = w\<lparr>heap := heap w @ [heap w ! fa]\<rparr>"
  define wc where "wc = snd (class_colors np 42 w0 (length (names r)))"
  define colors where "colors = fst (class_colors np 42 w (length (names r)))"
  have hc: "heap wc = heap w @ [heap w ! fa]" and lc: "log wc = log w"
    unfolding wc_def class_colors_heap class_colors_log by (simp_all add: w0_def)
  have run: "draw_loop cv colors (names r) alpha fa [(m1, b1, k1), (m2, b2, k2)]
      (length (heap w), wc) = (Inr a', w')"
    using assms(1) unfolding custom_visualization_loop [OF assms(3)] assms(4)
    by (simp add: colors_def wc_def w0_def)
  have f: "heap wc ! fa = heap w ! fa" "heap wc ! length (heap w) = heap w ! fa"
    "fa < length (heap wc)"
    using assms(2) by (simp_all add: hc nth_append)
  have e: "heap w' ! a' ! y ! x =
           blend_pixel (blend_pixel (heap w ! fa ! y ! x) c1 alpha) c2 alpha"
    using draw_loop_two [OF run f(3) assms(5,6) [folded f(1)] assms(7,8) [folded colors_def]
        assms(9,10) [folded f(1)] assms(11,12) assms(13) [folded lc] assms(14)]
    unfolding f(2) .
  have "list_all2 (\<lambda>v s. \<bar>chan v - s\<bar> \<le> 1 + 1 / 2 ^ 13)
            (channels (heap w' ! a' ! y ! x)) (spec_blend2 (heap w ! fa ! y ! x) c1 c2 alpha)"
    if "\<bar>alpha\<bar> \<le> 1"
    unfolding e by (rule blend_pixel_twice_close [OF that])
  then show ?thesis using e by simp
qed


text \<open>The concrete rectangle paints what lies in its band and nothing else.\<close>

lemma paint_rectangle_length:
  "length (paint_rectangle img pt1 pt2 color thickness) = length img"
  "y < length img \<Longrightarrow> length (paint_rectangle img pt1 pt2 color thickness ! y) = length (img ! y)"
  by (simp_all add: paint_rectangle_def nth_enumerate_eq)

lemma paint_rectangle_nth:
  assumes "y < length img" "x < length (img ! y)"
  shows "paint_rectangle img pt1 pt2 color thickness ! y ! x =
       (if in_band pt1 pt2 thickness (int x) (int y) then color else img ! y ! x)"
  using assms by (simp add: paint_rectangle_def nth_enumerate_eq)

lemma sample_keeps:
  "\<not> in_band pt1 pt2 thickness (int x) (int y) \<Longrightarrow>
     keeps_pixel sample_cv2 (Ev_rectangle a pt1 pt2 color thickness) y x"
  "keeps_pixel sample_cv2 (Ev_putText a txt org scale color thickness) y x"
  by (simp_all add: sample_cv2_sel paint_rectangle_nth paint_rectangle_length)

lemma far_paint:
  "paint_rectangle [[p, q], [r, s]] (100, 100) (110, 110) c 2 = [[p, q], [r, s]]"
  "paint_rectangle [[p, q], [r, s]] (100, 81) (218, 100) c (- 1) = [[p, q], [r, s]]"
  "paint_rectangle [[p, q], [r, s]] (100, 81) (228, 100) c (- 1) = [[p, q], [r, s]]"
  by (simp_all add: paint_rectangle_def in_band_def)

lemma near_paint:
  "paint_rectangle (paint_rectangle [[p, q], [r, s]] (0, 0) (1, 1) c 2) (0, - 19) (118, 0) c (- 1)
     = [[c, c], [c, c]]"
  "paint_rectangle (paint_rectangle [[p, q], [r, s]] (0, 0) (1, 1) c 2) (0, - 19) (128, 0) c (- 1)
     = [[c, c], [c, c]]"
  by (simp_all add: paint_rectangle_def in_band_def)

lemma bicycle_label: "label_text ''bicycle'' (9 / 10) = ''bicycle 0.90''"
  by (simp add: label_text_def format_f_def cvRound_def string_of_nat.simps)

lemma blend_channel_zero: "\<bar>alpha\<bar> \<le> 2 ^ 20 \<Longrightarrow> blend_channel a 0 alpha = a"
  using weighted_channel_overlay [of alpha undefined a 0]
    weighted_channel_zero [OF f32_finite_bounded, of alpha undefined a] by simp

lemma blend_pixel_zero: "\<bar>alpha\<bar> \<le> 2 ^ 20 \<Longrightarrow> blend_pixel q (0, 0, 0) alpha = q"
  by (cases q) (simp add: blend_channel_zero)

lemma overlap_overlay:
  assumes "\<bar>alpha\<bar> \<le> 2 ^ 20"
  shows "mask_overlay sample_cv2 black2 [[(a0, a1, a2), q], [r, s]] [[1, 1], [1, 1]]
           (c0, c1, c2) alpha
         = Inr [[blend_pixel (a0, a1, a2) (c0, c1, c2) alpha, blend_pixel q (c0, c1, c2) alpha],
                [blend_pixel r (c0, c1, c2) alpha, blend_pixel s (c0, c1, c2) alpha]]"
    "mask_overlay sample_cv2 black2 [[(a0, a1, a2), q], [r, s]] [[1, 0], [0, 0]]
           (c0, c1, c2) alpha
         = Inr [[blend_pixel (a0, a1, a2) (c0, c1, c2) alpha, q], [r, s]]"
  by (simp_all add: sample_simps black2_def weighted_channel_overlay [OF assms]
        blend_pixel_zero [OF assms] weighted_pixel_blend [OF assms]
        del: weighted_pixel.simps)

text \<open>
  Two detections on the black frame, both masks over the pixel in row 0, column 0: with
  the boxes away from the frame, and with the boxes over it.
\<close>

lemma far_run:
  fixes np :: "nat np_random"
  assumes "\<And>w :: nat world. class_colors np 42 w (Suc (Suc 0)) = ([c, d], w\<lparr>rng := g\<rparr>)"
    and "\<bar>alpha\<bar> \<le> 2 ^ 20"
  shows "custom_visualization sample_cv2 np (world0\<lparr>heap := [black2]\<rparr>) 0
           [overlap_result far_box] alpha =
         (Inr 3,
          \<lparr>rng = g,
           heap = [black2, black2,
             [[blend_pixel (0, 0, 0) c alpha, blend_pixel (0, 0, 0) c alpha],
              [blend_pixel (0, 0, 0) c alpha, blend_pixel (0, 0, 0) c alpha]],
             [[blend_pixel (blend_pixel (0, 0, 0) c alpha) d alpha, blend_pixel (0, 0, 0) c alpha],
              [blend_pixel (0, 0, 0) c alpha, blend_pixel (0, 0, 0) c alpha]]],
           log = [Ev_rectangle 2 (100, 100) (110, 110) c 2,
                  Ev_rectangle 2 (100, 81) (218, 100) c (- 1),
                  Ev_putText 2 ''person 0.90'' (104, 96) (1 / 2) (255, 255, 255) 2,
                  Ev_rectangle 3 (100, 100) (110, 110) d 2,
                  Ev_rectangle 3 (100, 81) (228, 100) d (- 1),
                  Ev_putText 3 ''bicycle 0.90'' (104, 96) (1 / 2) (255, 255, 255) 2],
           time_calls = 0\<rparr>)"
proof -
  obtain c0 c1 c2 d0 d1 d2 where c: "c = (c0, c1, c2)" and d: "d = (d0, d1, d2)"
    by (cases c; cases d) auto
  define p where "p = blend_pixel (0, 0, 0) (c0, c1, c2) alpha"
  obtain p0 p1 p2 where pp: "p = (p0, p1, p2)" by (cases p) auto
  have o1: "mask_overlay sample_cv2 black2 black2 [[1, 1], [1, 1]] (c0, c1, c2) alpha
      = Inr [[p, p], [p, p]]"
    using overlap_overlay(1) [OF assms(2), of 0 0 0 "(0, 0, 0)" "(0, 0, 0)" "(0, 0, 0)" c0 c1 c2]
    by (simp add: black2_def p_def)
  have o2: "mask_overlay sample_cv2 black2 [[p, p], [p, p]] [[1, 0], [0, 0]] (d0, d1, d2) alpha
      = Inr [[blend_pixel p (d0, d1, d2) alpha, p], [p, p]]"
    unfolding pp by (rule overlap_overlay(2) [OF assms(2)])
  show ?thesis
    unfolding c d p_def [symmetric]
    by (simp add: custom_visualization_def alloc_def overlap_result_def far_box_def
          detections_def assms(1) [unfolded c d] draw_detection_def draw_box_label_def
          np_index_def o1 o2 sample_label bicycle_label cv_rectangle_def cv_putText_def
          int32_def py_int_def far_paint sample_cv2_sel world0_def)
qed

lemma near_run:
  fixes np :: "nat np_random"
  assumes "\<And>w :: nat world. class_colors np 42 w (Suc (Suc 0)) = ([c, d], w\<lparr>rng := g\<rparr>)"
    and "\<bar>alpha\<bar> \<le> 2 ^ 20"
  shows "custom_visualization sample_cv2 np (world0\<lparr>heap := [black2]\<rparr>) 0
           [overlap_result sample_box] alpha =
         (Inr 3,
          \<lparr>rng = g,
           heap = [black2, black2, [[c, c], [c, c]], [[d, d], [d, d]]],
           log = [Ev_rectangle 2 (0, 0) (1, 1) c 2,
                  Ev_rectangle 2 (0, - 19) (118, 0) c (- 1),
                  Ev_putText 2 ''person 0.90'' (4, - 4) (1 / 2) (255, 255, 255) 2,
                  Ev_rectangle 3 (0, 0) (1, 1) d 2,
                  Ev_rectangle 3 (0, - 19) (128, 0) d (- 1),
                  Ev_putText 3 ''bicycle 0.90'' (4, - 4) (1 / 2) (255, 255, 255) 2],
           time_calls = 0\<rparr>)"
proof -
  obtain c0 c1 c2 d0 d1 d2 where c: "c = (c0, c1, c2)" and d: "d = (d0, d1, d2)"
    by (cases c; cases d) auto
  define p where "p = blend_pixel (0, 0, 0) (c0, c1, c2) alpha"
  have o1: "mask_overlay sample_cv2 black2 black2 [[1, 1], [1, 1]] (c0, c1, c2) alpha
      = Inr [[p, p], [p, p]]"
    using overlap_overlay(1) [OF assms(2), of 0 0 0 "(0, 0, 0)" "(0, 0, 0)" "(0, 0, 0)" c0 c1 c2]
    by (simp add: black2_def p_def)
  have o2: "mask_overlay sample_cv2 black2 [[(c0, c1, c2), (c0, c1, c2)], [(c0, c1, c2), (c0, c1, c2)]]
      [[1, 0], [0, 0]] (d0, d1, d2) alpha
      = Inr [[blend_pixel (c0, c1, c2) (d0, d1, d2) alpha, (c0, c1, c2)],
             [(c0, c1, c2), (c0, c1, c2)]]"
    by (rule overlap_overlay(2) [OF assms(2)])
  show ?thesis
    unfolding c d
    by (simp add: custom_visualization_def alloc_def overlap_result_def sample_box_def
          detections_def assms(1) [unfolded c d] draw_detection_def draw_box_label_def
          np_index_def o1 o2 sample_label bicycle_label cv_rectangle_def cv_putText_def
          int32_def py_int_def near_paint sample_cv2_sel world0_def)
qed

lemma sample_colors2:
  "class_colors sample_random 42 w (Suc (Suc 0)) =
     ([(164, 239, 59), (134, 209, 29)], w\<lparr>rng := 48\<rparr>)"
  by (simp add: class_colors_def sample_random_def counter_rows_def mix_def upt_rec)


lemma f32_sum_default: "f32 (29 + 14942209 / 524288) = 115 / 2"
proof -
  have "binade (- 126) 127 (29 + 14942209 / 524288) = 5" by (rule binade_eqI; simp)
  from f32_eval [OF this] show ?thesis by (simp add: cvRound_def)
qed

lemma blend_channel_default2: "blend_channel 29 95 (3 / 10) = 58"
proof -
  have c: "chan 95 = 95" "chan 29 = 29" by (simp_all add: chan_def)
  have "blend_channel 29 95 (3 / 10) = saturate_u8 (115 / 2)"
    unfolding blend_channel_def c f32_3_10 f32_95 f32_sum_default ..
  also have "\<dots> = 58" by (simp add: saturate_u8_def cvRound_def clamp_def)
  finally show ?thesis .
qed

theorem composite_two_detections_witness:
  "fst (custom_visualization sample_cv2 sample_random (world0\<lparr>heap := [black2]\<rparr>) 0
          [overlap_result far_box] 1) = Inr 3
   \<and> detections (overlap_result far_box) [[[1, 1], [1, 1]], [[1, 0], [0, 0]]]
       = [([[1, 1], [1, 1]], far_box, 0), ([[1, 0], [0, 0]], far_box, 1)]
   \<and> resize sample_cv2 [[1, 1], [1, 1]] (width black2, height black2) = Inr [[1, 1], [1, 1]]
   \<and> resize sample_cv2 [[1, 0], [0, 0]] (width black2, height black2) = Inr [[1, 0], [0, 0]]
   \<and> fst (class_colors sample_random 42 (world0\<lparr>heap := [black2]\<rparr>) 2)
       = [(164, 239, 59), (134, 209, 29)]
   \<and> heap (snd (custom_visualization sample_cv2 sample_random (world0\<lparr>heap := [black2]\<rparr>) 0
          [overlap_result far_box] 1)) ! 3 ! 0 ! 0 = (255, 255, 88)
   \<and> spec_blend2 (0, 0, 0) (164, 239, 59) (134, 209, 29) 1 = [255, 255, 88]"
proof -
  let ?w = "world0\<lparr>heap := [black2]\<rparr>"
  let ?r = "overlap_result far_box"
  let ?m1 = "[[1, 1], [1, 1]] :: mask" and ?m2 = "[[1, 0], [0, 0]] :: mask"
  let ?c1 = "(164, 239, 59) :: pixel" and ?c2 = "(134, 209, 29) :: pixel"
  define w' where "w' = snd (custom_visualization sample_cv2 sample_random ?w 0 [?r] 1)"
  have al: "\<bar>1 :: real\<bar> \<le> 2 ^ 20" by simp
  note run = far_run [of sample_random ?c1 ?c2 48 1, OF sample_colors2 al]
  have h1: "custom_visualization sample_cv2 sample_random ?w 0 [?r] 1 = (Inr 3, w')"
    unfolding w'_def run by simp
  have h2: "0 < length (heap ?w)" by simp
  have h3: "masks ?r = Some [?m1, ?m2]" by (simp add: overlap_result_def)
  have h4: "detections ?r [?m1, ?m2] = [(?m1, far_box, 0), (?m2, far_box, 1)]"
    by (simp add: detections_def overlap_result_def py_int_def)
  have h5: "resize sample_cv2 ?m1 (width (heap ?w ! 0), height (heap ?w ! 0)) = Inr ?m1"
    and h6: "resize sample_cv2 ?m2 (width (heap ?w ! 0), height (heap ?w ! 0)) = Inr ?m2"
    by (simp_all add: sample_simps black2_def)
  have cs: "fst (class_colors sample_random 42 ?w (length (names ?r))) = [?c1, ?c2]"
    by (simp add: overlap_result_def sample_colors2)
  have h7: "np_index (fst (class_colors sample_random 42 ?w (length (names ?r)))) 0 = Inr ?c1"
    and h8: "np_index (fst (class_colors sample_random 42 ?w (length (names ?r)))) 1 = Inr ?c2"
    unfolding cs by (simp_all add: np_index_def)
  have h9: "0 < length (heap ?w ! 0)" and h10: "0 < length (heap ?w ! 0 ! 0)"
    by (simp_all add: black2_def)
  have h11: "1 / 2 < ?m1 ! 0 ! 0" and h12: "1 / 2 < ?m2 ! 0 ! 0" by simp_all
  have h13: "\<forall>e \<in> set (drop (length (log ?w)) (log w')). keeps_pixel sample_cv2 e 0 0"
    unfolding w'_def run
    by (simp add: world0_def sample_keeps in_band_def del: keeps_pixel.simps)
  have a1: "\<bar>1 :: real\<bar> \<le> 1" by simp
  note t = composite_two_detections [OF h1 h2 h3 h4 h5 h6 h7 h8 h9 h10 h11 h12 h13 al]
  have p: "heap w' ! 3 ! 0 ! 0 = (255, 255, 88)"
    using t [THEN conjunct1]
    by (simp add: black2_def blend_channel_one saturate_u8_def cvRound_def clamp_def chan_def)
  have s: "spec_blend2 (0, 0, 0) ?c1 ?c2 1 = [255, 255, 88]"
    by (simp add: clamp_def chan_def)
  have c2: "fst (class_colors sample_random 42 ?w 2) = [?c1, ?c2]"
    using sample_colors2 [of ?w] by (simp add: numeral_2_eq_2)
  have r5: "resize sample_cv2 ?m1 (width black2, height black2) = Inr ?m1"
    and r6: "resize sample_cv2 ?m2 (width black2, height black2) = Inr ?m2"
    using h5 h6 by simp_all
  have f: "fst (custom_visualization sample_cv2 sample_random ?w 0 [?r] 1) = Inr 3"
    using h1 by simp
  show ?thesis using f h4 r5 r6 c2 p [unfolded w'_def] s by (intro conjI)
qed

text \<open>
  Claim C2 as stated fails in two ways. With the boxes over the frame, the pixel under
  both masks ends in the colour of the second box, (134, 209, 29), where the claim's sum
  at weight 1/2 is (149, 224, 44). With the boxes away from the frame, two detections of
  colour 95 on a black pixel at the default weight 0.3 give 58, where the claim's sum is
  \<open>0 + 28.5 + 28.5 = 57\<close>: the float nearest to 0.3 is above it and the first blend is
  rounded to 29 before the second starts.
\<close>

theorem composite_two_detections_counterexample:
  "resize sample_cv2 [[1, 1], [1, 1]] (width black2, height black2) = Inr [[1, 1], [1, 1]]
   \<and> resize sample_cv2 [[1, 0], [0, 0]] (width black2, height black2) = Inr [[1, 0], [0, 0]]
   \<and> fst (class_colors sample_random 42 (world0\<lparr>heap := [black2]\<rparr>) 2)
       = [(164, 239, 59), (134, 209, 29)]
   \<and> fst (custom_visualization sample_cv2 sample_random (world0\<lparr>heap := [black2]\<rparr>) 0
          [overlap_result sample_box] (1 / 2)) = Inr 3
   \<and> heap (snd (custom_visualization sample_cv2 sample_random (world0\<lparr>heap := [black2]\<rparr>) 0
          [overlap_result sample_box] (1 / 2))) ! 3 ! 0 ! 0 = (134, 209, 29)
   \<and> spec_blend2 (0, 0, 0) (164, 239, 59) (134, 209, 29) (1 / 2) = [149, 224, 44]
   \<and> fst (class_colors (constant_random (95, 95, 95)) 42 (world0\<lparr>heap := [black2]\<rparr>) 2)
       = [(95, 95, 95), (95, 95, 95)]
   \<and> fst (custom_visualization sample_cv2 (constant_random (95, 95, 95))
          (world0\<lparr>heap := [black2]\<rparr>) 0 [overlap_result far_box] (3 / 10)) = Inr 3
   \<and> heap (snd (custom_visualization sample_cv2 (constant_random (95, 95, 95))
          (world0\<lparr>heap := [black2]\<rparr>) 0 [overlap_result far_box] (3 / 10))) ! 3 ! 0 ! 0
       = (58, 58, 58)
   \<and> spec_blend2 (0, 0, 0) (95, 95, 95) (95, 95, 95) (3 / 10) = [57, 57, 57]"
proof -
  let ?w = "world0\<lparr>heap := [black2]\<rparr>"
  have a1: "\<bar>1 / 2 :: real\<bar> \<le> 2 ^ 20" and a2: "\<bar>3 / 10 :: real\<bar> \<le> 2 ^ 20" by simp_all
  have cc: "class_colors (constant_random (95, 95, 95)) 42 w (Suc (Suc 0))
      = ([(95, 95, 95), (95, 95, 95)], w\<lparr>rng := 42\<rparr>)" for w :: "nat world"
    by (simp add: constant_colors)
  note n = near_run [of sample_random "(164, 239, 59)" "(134, 209, 29)" 48 "1 / 2",
      OF sample_colors2 a1]
  note f = far_run [of "constant_random (95, 95, 95)" "(95, 95, 95)" "(95, 95, 95)" 42 "3 / 10",
      OF cc a2]
  have r: "resize sample_cv2 [[1, 1], [1, 1]] (width black2, height black2) = Inr [[1, 1], [1, 1]]"
    "resize sample_cv2 [[1, 0], [0, 0]] (width black2, height black2) = Inr [[1, 0], [0, 0]]"
    by (simp_all add: sample_simps black2_def)
  have c: "fst (class_colors sample_random 42 ?w 2) = [(164, 239, 59), (134, 209, 29)]"
    "fst (class_colors (constant_random (95, 95, 95)) 42 ?w 2) = [(95, 95, 95), (95, 95, 95)]"
    using sample_colors2 [of ?w] cc [of ?w] by (simp_all add: numeral_2_eq_2)
  have s: "spec_blend2 (0, 0, 0) (164, 239, 59) (134, 209, 29) (1 / 2) = [149, 224, 44]"
    "spec_blend2 (0, 0, 0) (95, 95, 95) (95, 95, 95) (3 / 10) = [57, 57, 57]"
    by (simp_all add: clamp_def chan_def)
  have p: "blend_pixel (blend_pixel (0, 0, 0) (95, 95, 95) (3 / 10)) (95, 95, 95) (3 / 10)
      = (58, 58, 58)"
    by (simp add: blend_channel_default blend_channel_default2)
  show ?thesis
    unfolding n f using r c s p by simp
qed


section \<open>The label text\<close>


text \<open>
  custom_visualization is not given the two flags: in custom mode the annotation is the
  same whatever they are.
\<close>

lemma custom_annotate_flags:
  "arg_custom_visualization ar \<Longrightarrow>
     annotate ev (ar\<lparr>arg_show_labels := l, arg_show_conf := k\<rparr>) w fa results
       = annotate ev ar w fa results"
  by (simp add: annotate_def)




section \<open>The capture loop\<close>

lemma reads_append: "reads (xs @ ys) = reads xs @ reads ys"
  by (simp add: reads_def)

lemma quiet_filters:
  assumes "\<forall>e \<in> set evs. is_quiet e"
  shows "filter is_detect evs = []" "filter is_annotate evs = []"
    "filter is_release evs = []" "reads evs = []"
proof -
  have q: "is_quiet e \<Longrightarrow> \<not> is_detect e \<and> \<not> is_annotate e \<and> \<not> is_release e \<and> read_of e = []"
    for e by (cases e) simp_all
  show "filter is_detect evs = []" "filter is_annotate evs = []" "filter is_release evs = []"
    using assms q by (auto simp: filter_empty_conv)
  show "reads evs = []"
    using assms q by (auto simp: reads_def)
qed

lemma drawing_quiet: "is_drawing e \<Longrightarrow> is_quiet e"
  by (cases e) simp_all

lemma custom_visualization_log:
  "\<exists>evs. log (snd (custom_visualization cv np w fa results alpha)) = log w @ evs
         \<and> (\<forall>e \<in> set evs. is_drawing e)"
proof (cases results)
  case Nil
  then show ?thesis by (simp add: custom_visualization_def alloc_def)
next
  case (Cons r rest)
  show ?thesis
  proof (cases "masks r")
    case None
    then show ?thesis using Cons by (simp add: custom_visualization_def alloc_def)
  next
    case (Some ms)
    define w0 where "w0 = w\<lparr>heap := heap w @ [heap w ! fa]\<rparr>"
    define colors where "colors = fst (class_colors np 42 w (length (names r)))"
    define w1 where "w1 = snd (class_colors np 42 w0 (length (names r)))"
    have l1: "log w1 = log w"
      unfolding w1_def class_colors_log by (simp add: w0_def)
    obtain r' w' where l: "draw_loop cv colors (names r) alpha fa (detections r ms)
        (length (heap w), w1) = (r', w')"
      by (cases "draw_loop cv colors (names r) alpha fa (detections r ms) (length (heap w), w1)") auto
    have e: "custom_visualization cv np w fa results alpha = (r', w')"
      unfolding Cons custom_visualization_loop [OF Some] using l
      by (simp add: colors_def w1_def w0_def)
    from draw_loop_effect [OF l] l1 show ?thesis unfolding e by auto
  qed
qed

lemma annotate_log:
  "\<exists>evs. log (snd (annotate ev ar w fa results)) = log w @ evs \<and> (\<forall>e \<in> set evs. is_quiet e)"
proof (cases "arg_custom_visualization ar")
  case True
  then show ?thesis
    using custom_visualization_log [of "env_cv ev" "env_np ev" w fa results "arg_mask_alpha ar"]
    by (auto simp: annotate_def intro: drawing_quiet)
next
  case False
  then show ?thesis
    by (cases results) (simp_all add: annotate_def alloc_def)
qed

lemma fps_update_log: "log (snd (fps_update clk (s, w))) = log w"
  by (simp add: fps_update_def time_time_def Let_def)

lemma fps_update_heap: "heap (snd (fps_update clk (s, w))) = heap w"
  by (simp add: fps_update_def time_time_def Let_def)

lemma fps_init_log: "log (snd (fps_init clk w)) = log w"
  by (simp add: fps_init_def time_time_def)

text \<open>
  One turn of the loop: the model is called, then the annotation, then at most a text, the
  display and the writer; the turn ends in an exception or as the key decides.
\<close>

lemma process_frame_effect:
  assumes "process_frame ev ar img i (s, w) = (t, s', w')"
  shows "\<exists>f evs. log w' = log w @ Ev_detect f # Ev_annotate # evs
           \<and> (\<forall>e \<in> set evs. is_quiet e)
           \<and> ((\<exists>e. t = Raised e) \<or> t = (if waitKey ev i AND 255 = 113 then Break else Continue))"
proof -
  define fa where "fa = length (heap w)"
  define w0 where "w0 = w\<lparr>heap := heap w @ [img]\<rparr>"
  obtain s1 w1 where f: "fps_update (clock ev) (s, w0) = (s1, w1)"
    by (cases "fps_update (clock ev) (s, w0)") auto
  have l1: "log w1 = log w"
    using fps_update_log [of "clock ev" s w0] f by (simp add: w0_def)
  define res where "res = model_call ev (heap w1 ! fa) (arg_conf ar) (arg_classes ar)"
  define w2 where "w2 = emit Ev_annotate (emit (Ev_detect (heap w1 ! fa)) w1)"
  have l2: "log w2 = log w @ [Ev_detect (heap w1 ! fa), Ev_annotate]"
    using l1 by (simp add: w2_def emit_def)
  obtain ra w3 where a: "annotate ev ar w2 fa res = (ra, w3)"
    by (cases "annotate ev ar w2 fa res") auto
  obtain evsA where l3: "log w3 = log w2 @ evsA" "\<forall>e \<in> set evsA. is_quiet e"
    using annotate_log [of ev ar w2 fa res] a by auto
  show ?thesis
  proof (cases ra)
    case (Inl e)
    then have "process_frame ev ar img i (s, w) = (Raised e, s1, w3)"
      using f a
      by (simp add: process_frame_def alloc_def fa_def w0_def res_def w2_def Let_def)
    with assms have "t = Raised e" "w' = w3" by simp_all
    then show ?thesis using l2 l3 by auto
  next
    case (Inr a')
    define r4 where "r4 = (if arg_show_fps ar
        then cv_putText (env_cv ev) w3 a' (''FPS: '' @ format_f 1 (fps_display s1))
               (20, 40) 1 (0, 255, 0) 2 else Inr w3)"
    show ?thesis
    proof (cases r4)
      case e: (Inl e)
      have "process_frame ev ar img i (s, w) = (Raised e, s1, w3)"
        using f a Inr e
        by (simp add: process_frame_def alloc_def fa_def w0_def res_def w2_def Let_def r4_def)
      with assms have "t = Raised e" "w' = w3" by simp_all
      then show ?thesis using l2 l3 by auto
    next
      case w4: (Inr w4)
      define w5 where "w5 = emit (Ev_imshow (heap w4 ! a')) w4"
      define w6 where "w6 = (if arg_save ar then emit (Ev_write (heap w5 ! a')) w5 else w5)"
      have "process_frame ev ar img i (s, w) =
          (if waitKey ev i AND 255 = 113 then Break else Continue, s1, w6)"
        using f a Inr w4
        by (simp add: process_frame_def alloc_def fa_def w0_def res_def w2_def Let_def
              r4_def w5_def w6_def)
      with assms have r: "t = (if waitKey ev i AND 255 = 113 then Break else Continue)" "w' = w6"
        by simp_all
      have "\<exists>e4. log w4 = log w3 @ e4 \<and> (\<forall>e \<in> set e4. is_quiet e)"
      proof (cases "arg_show_fps ar")
        case True
        then have "cv_putText (env_cv ev) w3 a' (''FPS: '' @ format_f 1 (fps_display s1))
               (20, 40) 1 (0, 255, 0) 2 = Inr w4"
          using w4 by (simp add: r4_def)
        from cv_putText_effect [OF this] show ?thesis by simp
      next
        case False
        then have "w4 = w3" using w4 by (simp add: r4_def)
        then show ?thesis by simp
      qed
      then obtain e4 where l4: "log w4 = log w3 @ e4" "\<forall>e \<in> set e4. is_quiet e" by blast
      have l5: "log w5 = log w3 @ e4 @ [Ev_imshow (heap w4 ! a')]"
        using l4(1) by (simp add: w5_def emit_def)
      have "\<exists>e6. log w6 = log w5 @ e6 \<and> (\<forall>e \<in> set e6. is_quiet e)"
        by (cases "arg_save ar") (simp_all add: w6_def emit_def)
      then obtain e6 where l6': "log w6 = log w5 @ e6" "\<forall>e \<in> set e6. is_quiet e" by blast
      define evsB where "evsB = e4 @ [Ev_imshow (heap w4 ! a')] @ e6"
      have l6: "log w6 = log w3 @ evsB" "\<forall>e \<in> set evsB. is_quiet e"
        using l4(2) l5 l6' by (auto simp: evsB_def)
      have "log w' = log w @ Ev_detect (heap w1 ! fa) # Ev_annotate # (evsA @ evsB)"
        using r l2 l3 l6 by simp
      moreover have "\<forall>e \<in> set (evsA @ evsB). is_quiet e" using l3 l6 by auto
      ultimately show ?thesis using r(1) by blast
    qed
  qed
qed

text \<open>
  The loop, when no turn raises: it ends by \<open>break\<close>, releases nothing, and makes one
  model call and one annotation per frame read. Without the key \<open>q\<close> it reads every frame
  and leaves on the read that fails; with \<open>q\<close> first pressed in turn \<open>k\<close> it leaves after
  that turn.
\<close>

lemma main_loop_effect:
  assumes "main_loop ev ar fs i (s, w) = (t, s', w')"
    and "\<forall>img \<in> set fs. \<forall>j sw e. fst (process_frame ev ar img j sw) \<noteq> Raised e"
  shows "\<exists>evs. log w' = log w @ evs \<and> filter is_release evs = [] \<and> t = Break
           \<and> ((\<forall>k < length fs. waitKey ev (i + k) AND 255 \<noteq> 113)
                \<longrightarrow> length (filter is_detect evs) = length fs
                  \<and> length (filter is_annotate evs) = length fs
                  \<and> reads evs = replicate (length fs) True @ [False])
           \<and> (\<forall>k < length fs. waitKey ev (i + k) AND 255 = 113
                  \<and> (\<forall>j < k. waitKey ev (i + j) AND 255 \<noteq> 113)
                \<longrightarrow> length (filter is_detect evs) = Suc k
                  \<and> length (filter is_annotate evs) = Suc k
                  \<and> reads evs = replicate (Suc k) True)"
  using assms
proof (induction fs arbitrary: i s w)
  case Nil
  then show ?case by (auto simp: emit_def reads_def)
next
  case (Cons img rest)
  define wr where "wr = emit (Ev_read True) w"
  obtain t1 s1 w1 where p: "process_frame ev ar img i (s, wr) = (t1, s1, w1)"
    by (cases "process_frame ev ar img i (s, wr)") auto
  have nr: "t1 \<noteq> Raised e" for e
    using Cons.prems(2) p by (metis fst_conv list.set_intros(1))
  from process_frame_effect [OF p]
  obtain f evs1 where e1: "log w1 = log wr @ Ev_detect f # Ev_annotate # evs1"
    "\<forall>e \<in> set evs1. is_quiet e"
    "t1 = (if waitKey ev i AND 255 = 113 then Break else Continue)"
    using nr by blast
  let ?turn = "Ev_read True # Ev_detect f # Ev_annotate # evs1"
  have lw1: "log w1 = log w @ ?turn" using e1(1) by (simp add: wr_def emit_def)
  have q: "filter is_release ?turn = []" "length (filter is_detect ?turn) = 1"
    "length (filter is_annotate ?turn) = 1" "reads ?turn = [True]"
    using quiet_filters [OF e1(2)] by (simp_all add: reads_def)
  show ?case
  proof (cases "waitKey ev i AND 255 = 113")
    case True
    then have tb: "t1 = Break" using e1(3) by simp
    then have r: "t = Break" "w' = w1"
      using Cons.prems(1) p by (simp_all add: wr_def)
    have a: "\<not> (\<forall>k < length (img # rest). waitKey ev (i + k) AND 255 \<noteq> 113)"
      using True by force
    have b: "length (filter is_detect ?turn) = Suc k
           \<and> length (filter is_annotate ?turn) = Suc k
           \<and> reads ?turn = replicate (Suc k) True"
      if "waitKey ev (i + k) AND 255 = 113 \<and> (\<forall>j < k. waitKey ev (i + j) AND 255 \<noteq> 113)" for k
    proof -
      have "k = 0"
      proof (rule ccontr)
        assume "k \<noteq> 0"
        then have "waitKey ev (i + 0) AND 255 \<noteq> 113" using that by blast
        then show False using True by simp
      qed
      then show ?thesis using q by simp
    qed
    have g1: "log w' = log w @ ?turn" using lw1 r(2) by simp
    have c1: "(\<forall>k < length (img # rest). waitKey ev (i + k) AND 255 \<noteq> 113)
                \<longrightarrow> length (filter is_detect ?turn) = length (img # rest)
                  \<and> length (filter is_annotate ?turn) = length (img # rest)
                  \<and> reads ?turn = replicate (length (img # rest)) True @ [False]"
      using a by blast
    have c2: "\<forall>k < length (img # rest). waitKey ev (i + k) AND 255 = 113
                  \<and> (\<forall>j < k. waitKey ev (i + j) AND 255 \<noteq> 113)
                \<longrightarrow> length (filter is_detect ?turn) = Suc k
                  \<and> length (filter is_annotate ?turn) = Suc k
                  \<and> reads ?turn = replicate (Suc k) True"
      using b by blast
    show ?thesis
      by (rule exI [of _ ?turn]) (intro conjI g1 q(1) r(1) c1 c2)
  next
    case False
    then have "t1 = Continue" using e1(3) by simp
    then have l: "main_loop ev ar rest (Suc i) (s1, w1) = (t, s', w')"
      using Cons.prems(1) p by (simp add: wr_def)
    have h: "\<forall>img \<in> set rest. \<forall>j sw e. fst (process_frame ev ar img j sw) \<noteq> Raised e"
      using Cons.prems(2) by simp
    from Cons.IH [OF l h]
    obtain evs2 where e2: "log w' = log w1 @ evs2" "filter is_release evs2 = []" "t = Break"
      "(\<forall>k < length rest. waitKey ev (Suc i + k) AND 255 \<noteq> 113)
         \<longrightarrow> length (filter is_detect evs2) = length rest
           \<and> length (filter is_annotate evs2) = length rest
           \<and> reads evs2 = replicate (length rest) True @ [False]"
      "\<forall>k < length rest. waitKey ev (Suc i + k) AND 255 = 113
                  \<and> (\<forall>j < k. waitKey ev (Suc i + j) AND 255 \<noteq> 113)
                \<longrightarrow> length (filter is_detect evs2) = Suc k
                  \<and> length (filter is_annotate evs2) = Suc k
                  \<and> reads evs2 = replicate (Suc k) True"
      by blast
    have a: "log w' = log w @ (?turn @ evs2)" using lw1 e2(1) by simp
    have b: "filter is_release (?turn @ evs2) = []" using q(1) e2(2) by simp
    have c: "length (filter is_detect (?turn @ evs2)) = length (img # rest)
           \<and> length (filter is_annotate (?turn @ evs2)) = length (img # rest)
           \<and> reads (?turn @ evs2) = replicate (length (img # rest)) True @ [False]"
      if hq: "\<forall>k < length (img # rest). waitKey ev (i + k) AND 255 \<noteq> 113"
    proof -
      have "\<forall>k < length rest. waitKey ev (Suc i + k) AND 255 \<noteq> 113"
        using hq by (metis Suc_less_eq add_Suc_shift length_Cons)
      with e2(4) have r: "length (filter is_detect evs2) = length rest"
        "length (filter is_annotate evs2) = length rest"
        "reads evs2 = replicate (length rest) True @ [False]" by simp_all
      show ?thesis
        using q r unfolding filter_append length_append reads_append by simp
    qed
    have d: "length (filter is_detect (?turn @ evs2)) = Suc k
           \<and> length (filter is_annotate (?turn @ evs2)) = Suc k
           \<and> reads (?turn @ evs2) = replicate (Suc k) True"
      if hk: "k < length (img # rest)" "waitKey ev (i + k) AND 255 = 113"
        "\<forall>j < k. waitKey ev (i + j) AND 255 \<noteq> 113" for k
    proof -
      obtain k' where k': "k = Suc k'"
        using hk(2) False by (cases k) simp_all
      have 1: "k' < length rest" using hk(1) k' by simp
      have 2: "waitKey ev (Suc i + k') AND 255 = 113" using hk(2) k' by simp
      have 3: "\<forall>j < k'. waitKey ev (Suc i + j) AND 255 \<noteq> 113"
        using hk(3) k' by (metis Suc_less_eq add_Suc_shift)
      from e2(5) 1 2 3 have r: "length (filter is_detect evs2) = Suc k'"
        "length (filter is_annotate evs2) = Suc k'"
        "reads evs2 = replicate (Suc k') True" by blast+
      show ?thesis
        using q r unfolding filter_append length_append reads_append k' by simp
    qed
    have c1: "(\<forall>k < length (img # rest). waitKey ev (i + k) AND 255 \<noteq> 113)
                \<longrightarrow> length (filter is_detect (?turn @ evs2)) = length (img # rest)
                  \<and> length (filter is_annotate (?turn @ evs2)) = length (img # rest)
                  \<and> reads (?turn @ evs2) = replicate (length (img # rest)) True @ [False]"
      using c by blast
    have c2: "\<forall>k < length (img # rest). waitKey ev (i + k) AND 255 = 113
                  \<and> (\<forall>j < k. waitKey ev (i + j) AND 255 \<noteq> 113)
                \<longrightarrow> length (filter is_detect (?turn @ evs2)) = Suc k
                  \<and> length (filter is_annotate (?turn @ evs2)) = Suc k
                  \<and> reads (?turn @ evs2) = replicate (Suc k) True"
      using d by blast
    show ?thesis
      by (rule exI [of _ "?turn @ evs2"]) (intro conjI a b e2(3) c1 c2)
  qed
qed


text \<open>
  The concrete run: every turn of the custom pipeline on a black frame completes, and ends
  as the key decides.
\<close>

lemma sample_turn:
  "fst (process_frame (sample_env\<lparr>waitKey := k\<rparr>) sample_args black2 i (s, w))
     = (if k i AND 255 = 113 then Break else Continue)"
proof -
  let ?ev = "sample_env\<lparr>waitKey := k\<rparr>"
  have sel: "env_cv ?ev = sample_cv2" "env_np ?ev = sample_random"
    "model_call ?ev = (\<lambda>img conf classes. [sample_result])" "waitKey ?ev = k"
    by (simp_all add: sample_env_def)
  define fa where "fa = length (heap w)"
  define w0 where "w0 = w\<lparr>heap := heap w @ [black2]\<rparr>"
  obtain s1 w1 where f: "fps_update (clock ?ev) (s, w0) = (s1, w1)"
    by (cases "fps_update (clock ?ev) (s, w0)") auto
  have h1: "heap w1 = heap w @ [black2]"
    using fps_update_heap [of "clock ?ev" s w0] f by (simp add: w0_def)
  define w2 where "w2 = emit Ev_annotate (emit (Ev_detect (heap w1 ! fa)) w1)"
  have h2: "fa < length (heap w2)" "heap w2 ! fa = black2"
    using h1 by (simp_all add: w2_def emit_def fa_def)
  have a: "annotate ?ev sample_args w2 fa [sample_result] =
      custom_visualization sample_cv2 sample_random w2 fa [sample_result] (1 / 2)"
    by (simp add: annotate_def sel sample_args_sel)
  show ?thesis
    using f
    by (simp add: process_frame_def alloc_def Let_def sel sample_args_sel
          w0_def [symmetric] fa_def [symmetric] w2_def [symmetric] a sample_run [OF h2])
qed

lemma sample_env_waitKey: "sample_env\<lparr>waitKey := (\<lambda>i. - 1)\<rparr> = sample_env"
  by (simp add: sample_env_def)

text \<open>
  With the model's own renderer, and a model that returns a result for every frame, no
  turn raises.
\<close>

lemma process_frame_builtin:
  assumes "\<not> arg_custom_visualization ar" "\<forall>img c k. model_call ev img c k \<noteq> []"
  shows "fst (process_frame ev ar img i sw) \<noteq> Raised e"
proof -
  obtain fa w0 where a: "alloc (snd sw) img = (fa, w0)" by (cases "alloc (snd sw) img") auto
  obtain s w1 where f: "fps_update (clock ev) (fst sw, w0) = (s, w1)"
    by (cases "fps_update (clock ev) (fst sw, w0)") auto
  obtain r rest where m: "model_call ev (heap w1 ! fa) (arg_conf ar) (arg_classes ar) = r # rest"
    using assms(2) by (meson list.exhaust)
  have i: "int32 20" "int32 40" by (simp_all add: int32_def)
  show ?thesis
    using assms(1) a f m i
    by (simp add: process_frame_def annotate_def alloc_def Let_def cv_putText_def)
qed

text \<open>
  Claim C5. When the capture opened and the processing of no frame raises, main ends
  without an exception, and the calls it made are: the writer opened if saving is on, the
  calls of the loop, then the release of the capture, the release of the writer if saving
  is on, and the windows destroyed; the loop itself releases nothing. So each is released
  once, the capture first, on both ways out of the loop. With a capture of three frames
  and no \<open>q\<close> in the three turns, the loop calls the model three times and the
  annotation three times, and leaves on the fourth read, the one that fails (a failed read
  ends the loop, it is no exception). With \<open>q\<close> first pressed in turn \<open>k\<close>, the loop
  leaves after that turn, with \<open>k + 1\<close> frames read and processed.
\<close>

theorem capture_loop_three_frames:
  assumes "cap_isOpened ev"
    and "\<forall>img \<in> set (cap_frames ev). \<forall>i sw e. fst (process_frame ev ar img i sw) \<noteq> Raised e"
  shows "fst (main ev ar w) = None
     \<and> (\<exists>evs. log (snd (main ev ar w)) =
           log w @ (if arg_save ar then [Ev_open_writer] else []) @ evs @ [Ev_release_cap]
             @ (if arg_save ar then [Ev_release_writer] else []) @ [Ev_destroyAllWindows]
         \<and> filter is_release evs = []
         \<and> (length (cap_frames ev) = 3 \<and> (\<forall>k < 3. waitKey ev k AND 255 \<noteq> 113)
              \<longrightarrow> length (filter is_detect evs) = 3
                \<and> length (filter is_annotate evs) = 3
                \<and> reads evs = [True, True, True, False])
         \<and> (\<forall>k < length (cap_frames ev).
               waitKey ev k AND 255 = 113 \<and> (\<forall>j < k. waitKey ev j AND 255 \<noteq> 113)
              \<longrightarrow> length (filter is_detect evs) = Suc k
                \<and> length (filter is_annotate evs) = Suc k
                \<and> reads evs = replicate (Suc k) True))"
proof -
  define w1 where "w1 = (if arg_save ar then emit Ev_open_writer w else w)"
  obtain s0 w2 where i: "fps_init (clock ev) w1 = (s0, w2)"
    by (cases "fps_init (clock ev) w1") auto
  have l2: "log w2 = log w @ (if arg_save ar then [Ev_open_writer] else [])"
    using fps_init_log [of "clock ev" w1] i by (simp add: w1_def emit_def)
  obtain t s' w3 where m: "main_loop ev ar (cap_frames ev) 0 (s0, w2) = (t, s', w3)"
    by (cases "main_loop ev ar (cap_frames ev) 0 (s0, w2)") auto
  from main_loop_effect [OF m assms(2)]
  obtain evs where e: "log w3 = log w2 @ evs" "filter is_release evs = []" "t = Break"
    "(\<forall>k < length (cap_frames ev). waitKey ev (0 + k) AND 255 \<noteq> 113)
       \<longrightarrow> length (filter is_detect evs) = length (cap_frames ev)
         \<and> length (filter is_annotate evs) = length (cap_frames ev)
         \<and> reads evs = replicate (length (cap_frames ev)) True @ [False]"
    "\<forall>k < length (cap_frames ev). waitKey ev (0 + k) AND 255 = 113
          \<and> (\<forall>j < k. waitKey ev (0 + j) AND 255 \<noteq> 113)
       \<longrightarrow> length (filter is_detect evs) = Suc k
         \<and> length (filter is_annotate evs) = Suc k
         \<and> reads evs = replicate (Suc k) True"
    by blast
  have mm: "main ev ar w = (None, emit Ev_destroyAllWindows
      (let w4 = emit Ev_release_cap w3
       in if arg_save ar then emit Ev_release_writer w4 else w4))"
    using assms(1) m i e(3) by (simp add: main_def w1_def [symmetric] Let_def)
  have n: "fst (main ev ar w) = None" unfolding mm by simp
  have lm: "log (snd (main ev ar w)) = log w3 @ [Ev_release_cap]
      @ (if arg_save ar then [Ev_release_writer] else []) @ [Ev_destroyAllWindows]"
    unfolding mm by (simp add: Let_def emit_def)
  have a: "log (snd (main ev ar w)) =
           log w @ (if arg_save ar then [Ev_open_writer] else []) @ evs @ [Ev_release_cap]
             @ (if arg_save ar then [Ev_release_writer] else []) @ [Ev_destroyAllWindows]"
    unfolding lm e(1) l2 by simp
  have c: "length (cap_frames ev) = 3 \<and> (\<forall>k < 3. waitKey ev k AND 255 \<noteq> 113)
              \<longrightarrow> length (filter is_detect evs) = 3
                \<and> length (filter is_annotate evs) = 3
                \<and> reads evs = [True, True, True, False]"
    using e(4) by (auto simp: numeral_3_eq_3)
  have d: "\<forall>k < length (cap_frames ev).
               waitKey ev k AND 255 = 113 \<and> (\<forall>j < k. waitKey ev j AND 255 \<noteq> 113)
              \<longrightarrow> length (filter is_detect evs) = Suc k
                \<and> length (filter is_annotate evs) = Suc k
                \<and> reads evs = replicate (Suc k) True"
    using e(5) by simp
  have "\<exists>evs. log (snd (main ev ar w)) =
           log w @ (if arg_save ar then [Ev_open_writer] else []) @ evs @ [Ev_release_cap]
             @ (if arg_save ar then [Ev_release_writer] else []) @ [Ev_destroyAllWindows]
         \<and> filter is_release evs = []
         \<and> (length (cap_frames ev) = 3 \<and> (\<forall>k < 3. waitKey ev k AND 255 \<noteq> 113)
              \<longrightarrow> length (filter is_detect evs) = 3
                \<and> length (filter is_annotate evs) = 3
                \<and> reads evs = [True, True, True, False])
         \<and> (\<forall>k < length (cap_frames ev).
               waitKey ev k AND 255 = 113 \<and> (\<forall>j < k. waitKey ev j AND 255 \<noteq> 113)
              \<longrightarrow> length (filter is_detect evs) = Suc k
                \<and> length (filter is_annotate evs) = Suc k
                \<and> reads evs = replicate (Suc k) True)"
    by (rule exI [of _ evs]) (intro conjI a e(2) c d)
  with n show ?thesis by (rule conjI)
qed

theorem capture_loop_three_frames_witness:
  "cap_isOpened sample_env \<and> cap_frames sample_env = [black2, black2, black2]
   \<and> arg_custom_visualization sample_args \<and> arg_save sample_args
   \<and> waitKey sample_env 0 AND 255 = 255 \<and> waitKey sample_env 1 AND 255 = 255
   \<and> waitKey sample_env 2 AND 255 = 255
   \<and> fst (main sample_env sample_args world0) = None
   \<and> (\<exists>evs. log (snd (main sample_env sample_args world0)) =
         [Ev_open_writer] @ evs @ [Ev_release_cap, Ev_release_writer, Ev_destroyAllWindows]
       \<and> filter is_release evs = []
       \<and> length (filter is_detect evs) = 3 \<and> length (filter is_annotate evs) = 3
       \<and> reads evs = [True, True, True, False])
   \<and> fst (main (sample_env\<lparr>waitKey := (\<lambda>i. if i = 1 then 113 else - 1)\<rparr>) sample_args world0)
       = None
   \<and> (\<exists>evs. log (snd (main (sample_env\<lparr>waitKey := (\<lambda>i. if i = 1 then 113 else - 1)\<rparr>)
           sample_args world0)) =
         [Ev_open_writer] @ evs @ [Ev_release_cap, Ev_release_writer, Ev_destroyAllWindows]
       \<and> filter is_release evs = []
       \<and> length (filter is_detect evs) = 2 \<and> length (filter is_annotate evs) = 2
       \<and> reads evs = [True, True])"
proof -
  let ?q = "sample_env\<lparr>waitKey := (\<lambda>i. if i = 1 then 113 else - 1)\<rparr>"
  have h1: "cap_isOpened sample_env" by (rule sample_env_sel)
  have fr: "cap_frames sample_env = [black2, black2, black2]" by (rule sample_env_sel)
  have h2: "\<forall>img \<in> set (cap_frames sample_env). \<forall>i sw e.
      fst (process_frame sample_env sample_args img i sw) \<noteq> Raised e"
    using sample_turn [of "\<lambda>i. - 1"] unfolding sample_env_waitKey fr by auto
  have q1: "cap_isOpened ?q" and qf: "cap_frames ?q = [black2, black2, black2]"
    by (simp_all add: sample_env_def)
  have q2: "\<forall>img \<in> set (cap_frames ?q). \<forall>i sw e.
      fst (process_frame ?q sample_args img i sw) \<noteq> Raised e"
    using sample_turn [of "\<lambda>i. if i = 1 then 113 else - 1"] unfolding qf by auto
  have k: "waitKey sample_env 0 AND 255 = 255" "waitKey sample_env 1 AND 255 = 255"
    "waitKey sample_env 2 AND 255 = 255"
    by (simp_all add: sample_env_sel)
  have k3: "\<forall>k < 3. waitKey sample_env k AND 255 \<noteq> 113" by (simp add: sample_env_sel)
  note t1 = capture_loop_three_frames [OF h1 h2, of world0]
  note t2 = capture_loop_three_frames [OF q1 q2, of world0]
  from t1 [THEN conjunct2]
  obtain evs where e: "log (snd (main sample_env sample_args world0)) =
      log world0 @ (if arg_save sample_args then [Ev_open_writer] else []) @ evs @ [Ev_release_cap]
        @ (if arg_save sample_args then [Ev_release_writer] else []) @ [Ev_destroyAllWindows]"
    "filter is_release evs = []"
    "length (cap_frames sample_env) = 3 \<and> (\<forall>k < 3. waitKey sample_env k AND 255 \<noteq> 113)
       \<longrightarrow> length (filter is_detect evs) = 3 \<and> length (filter is_annotate evs) = 3
         \<and> reads evs = [True, True, True, False]"
    by blast
  have l: "log (snd (main sample_env sample_args world0)) =
         [Ev_open_writer] @ evs @ [Ev_release_cap, Ev_release_writer, Ev_destroyAllWindows]"
    using e(1) by (simp add: sample_args_sel world0_def)
  have c: "length (filter is_detect evs) = 3" "length (filter is_annotate evs) = 3"
    "reads evs = [True, True, True, False]"
    using e(3) fr k3 by simp_all
  have r1: "\<exists>evs. log (snd (main sample_env sample_args world0)) =
         [Ev_open_writer] @ evs @ [Ev_release_cap, Ev_release_writer, Ev_destroyAllWindows]
       \<and> filter is_release evs = []
       \<and> length (filter is_detect evs) = 3 \<and> length (filter is_annotate evs) = 3
       \<and> reads evs = [True, True, True, False]"
    by (intro exI [of _ evs] conjI l e(2) c)
  from t2 [THEN conjunct2]
  obtain evq where eq: "log (snd (main ?q sample_args world0)) =
      log world0 @ (if arg_save sample_args then [Ev_open_writer] else []) @ evq @ [Ev_release_cap]
        @ (if arg_save sample_args then [Ev_release_writer] else []) @ [Ev_destroyAllWindows]"
    "filter is_release evq = []"
    "\<forall>k < length (cap_frames ?q).
        waitKey ?q k AND 255 = 113 \<and> (\<forall>j < k. waitKey ?q j AND 255 \<noteq> 113)
        \<longrightarrow> length (filter is_detect evq) = Suc k \<and> length (filter is_annotate evq) = Suc k
          \<and> reads evq = replicate (Suc k) True"
    by blast
  have lq: "log (snd (main ?q sample_args world0)) =
         [Ev_open_writer] @ evq @ [Ev_release_cap, Ev_release_writer, Ev_destroyAllWindows]"
    using eq(1) by (simp add: sample_args_sel world0_def)
  have "(1 :: nat) < length (cap_frames ?q)" by (simp add: sample_env_sel)
  moreover have "waitKey ?q 1 AND 255 = 113 \<and> (\<forall>j < 1. waitKey ?q j AND 255 \<noteq> 113)"
    by simp
  ultimately have "length (filter is_detect evq) = Suc 1 \<and> length (filter is_annotate evq) = Suc 1
          \<and> reads evq = replicate (Suc 1) True"
    using eq(3) by blast
  then have cq: "length (filter is_detect evq) = 2" "length (filter is_annotate evq) = 2"
    "reads evq = [True, True]"
    by (simp_all add: numeral_2_eq_2)
  have r2: "\<exists>evs. log (snd (main ?q sample_args world0)) =
         [Ev_open_writer] @ evs @ [Ev_release_cap, Ev_release_writer, Ev_destroyAllWindows]
       \<and> filter is_release evs = []
       \<and> length (filter is_detect evs) = 2 \<and> length (filter is_annotate evs) = 2
       \<and> reads evs = [True, True]"
    by (intro exI [of _ evq] conjI lq eq(2) cq)
  show ?thesis
    using h1 fr sample_args_sel(1) sample_args_sel(3) k t1 [THEN conjunct1] r1
      t2 [THEN conjunct1] r2
    by (intro conjI)
qed

end
